theory Spec2Isabelle
  imports Complex_Main "HOL-Library.Word" "HOL-Library.Signed_Division"
begin

section \<open>Package histogram: data model\<close>

text \<open>
  Go's \<^verbatim>\<open>int64\<close> is a 64-bit word: \<open>+\<close> and \<open>-\<close> wrap around, comparisons read the
  word as two's complement (\<open><s\<close>, \<open>\<le>s\<close>, \<open>sint\<close>). Go's \<^verbatim>\<open>int\<close> is taken to be 64 bits
  wide, as on every 64-bit target. A slice length or a position inside a slice is a
  \<open>nat\<close>; an index handed in by a caller is an \<open>int\<close>, since it may be negative.
\<close>

type_synonym int64 = "64 word"

text \<open>
  \<^verbatim>\<open>emptyError\<close> and \<^verbatim>\<open>invalidBoundariesError\<close> are the two error values of the package
  (histogram.go, lines 35-38). A panic is not an error value: it carries its message.
\<close>

datatype error = emptyError | invalidBoundariesError

datatype panic = Panic string

definition index_out_of_range :: panic where
  "index_out_of_range = Panic ''runtime error: index out of range''"

definition nil_dereference :: panic where
  "nil_dereference = Panic ''runtime error: invalid memory address or nil pointer dereference''"

definition makeslice_len :: panic where
  "makeslice_len = Panic ''runtime error: makeslice: len out of range''"

text \<open>The struct \<^verbatim>\<open>Histogram\<close> (histogram.go, lines 20-33).\<close>

record Histogram =
  bucketBoundaries :: "int64 list"
  bucketCounts :: "int64 list"
  bucketTotals :: "int64 list"
  numSamples :: int64
  total_hist :: int64

text \<open>
  The shape that the struct's comment asks for: the two counter slices have one element
  more than the boundaries.
\<close>

definition well_shaped :: "Histogram \<Rightarrow> bool" where
  "well_shaped h \<longleftrightarrow>
     length (bucketCounts h) = length (bucketBoundaries h) + 1 \<and>
     length (bucketTotals h) = length (bucketBoundaries h) + 1"

text \<open>Strictly increasing boundaries, compared as signed integers.\<close>

definition strictly_increasing :: "int64 list \<Rightarrow> bool" where
  "strictly_increasing bs \<longleftrightarrow> sorted_wrt (\<lambda>a b. a <s b) bs"

section \<open>New\<close>

text \<open>
  The loop of \<^verbatim>\<open>New\<close> (lines 45-51): \<^verbatim>\<open>for i := 0; i < len(b)-1; i++\<close>, leaving with the
  error at the first adjacent pair with \<^verbatim>\<open>b[i] >= b[i+1]\<close>. \<open>True\<close> means that the loop
  ran to its end. \<^verbatim>\<open>i < len(b)-1\<close> on Go's signed \<^verbatim>\<open>int\<close> is \<open>i + 1 < length b\<close>.
\<close>

function New_loop :: "int64 list \<Rightarrow> nat \<Rightarrow> bool" where
  "New_loop b i =
     (if i + 1 < length b
      then (if b ! (i + 1) \<le>s b ! i then False else New_loop b (i + 1))
      else True)"
  by pat_completeness auto
termination
  by (relation "measure (\<lambda>(b, i). length b - i)") auto

declare New_loop.simps [simp del]

text \<open>
  \<^verbatim>\<open>New\<close> (lines 40-57). A slice argument is \<open>None\<close> when it is \<^verbatim>\<open>nil\<close> and \<open>Some xs\<close>
  otherwise; \<open>Some []\<close> is an empty slice that is not \<^verbatim>\<open>nil\<close>. \<^verbatim>\<open>make([]int64, n)\<close> is
  \<open>replicate n 0\<close>; the two scalar fields, not named in the literal, are zero.
\<close>

definition New :: "int64 list option \<Rightarrow> error + Histogram" where
  "New bucketBoundaries_arg =
     (case bucketBoundaries_arg of
        None \<Rightarrow> Inl emptyError
      | Some b \<Rightarrow>
          if \<not> New_loop b 0 then Inl invalidBoundariesError
          else Inr \<lparr> bucketBoundaries = b,
                     bucketCounts = replicate (length b + 1) 0,
                     bucketTotals = replicate (length b + 1) 0,
                     numSamples = 0,
                     total_hist = 0 \<rparr>)"

section \<open>Bucket lookup and the two increments\<close>

text \<open>
  \<^verbatim>\<open>sort.Search(n, f)\<close> of Go's standard library, which both increments call:
  \<^verbatim>\<open>
  i, j := 0, n
  for i < j {
      h := int(uint(i+j) >> 1)
      if !f(h) { i = h + 1 } else { j = h }
  }
  return i
  \<close>
  The predicate may panic (it indexes a slice), so it returns a sum.
\<close>

function Search_loop :: "(nat \<Rightarrow> panic + bool) \<Rightarrow> nat \<Rightarrow> nat \<Rightarrow> panic + nat" where
  "Search_loop f i j =
     (if i < j
      then (let h = (i + j) div 2 in
            case f h of
              Inl p \<Rightarrow> Inl p
            | Inr b \<Rightarrow> if \<not> b then Search_loop f (h + 1) j else Search_loop f i h)
      else Inr i)"
  by pat_completeness auto
termination
  by (relation "measure (\<lambda>(f, i, j). j - i)") auto

declare Search_loop.simps [simp del]

definition Search :: "nat \<Rightarrow> (nat \<Rightarrow> panic + bool) \<Rightarrow> panic + nat" where
  "Search n f = Search_loop f 0 n"

text \<open>Reading \<^verbatim>\<open>xs[i]\<close>: Go panics out of range.\<close>

definition slice_get :: "int64 list \<Rightarrow> nat \<Rightarrow> panic + int64" where
  "slice_get xs i = (if i < length xs then Inr (xs ! i) else Inl index_out_of_range)"

text \<open>
  The closure handed to \<^verbatim>\<open>sort.Search\<close> by both increments:
  \<^verbatim>\<open>func(i int) bool { return h.bucketBoundaries[i] > val }\<close>.
\<close>

definition boundary_above :: "Histogram \<Rightarrow> int64 \<Rightarrow> nat \<Rightarrow> panic + bool" where
  "boundary_above h val i =
     (case slice_get (bucketBoundaries h) i of
        Inl p \<Rightarrow> Inl p
      | Inr b \<Rightarrow> Inr (val <s b))"

text \<open>
  \<^verbatim>\<open>Increment\<close> (lines 60-70). Each of \<^verbatim>\<open>h.bucketCounts[index]++\<close> and
  \<^verbatim>\<open>h.bucketTotals[index] += val\<close> panics when the index is out of range.
\<close>

definition Increment :: "Histogram \<Rightarrow> int64 \<Rightarrow> panic + Histogram" where
  "Increment h val =
     (case Search (length (bucketBoundaries h)) (boundary_above h val) of
        Inl p \<Rightarrow> Inl p
      | Inr index \<Rightarrow>
          if \<not> index < length (bucketCounts h) then Inl index_out_of_range
          else let h1 = h\<lparr>bucketCounts := (bucketCounts h)[index := bucketCounts h ! index + 1]\<rparr> in
          if \<not> index < length (bucketTotals h1) then Inl index_out_of_range
          else let h2 = h1\<lparr>bucketTotals := (bucketTotals h1)[index := bucketTotals h1 ! index + val]\<rparr>;
                   h3 = h2\<lparr>numSamples := numSamples h2 + 1\<rparr>
               in Inr (h3\<lparr>total_hist := total_hist h3 + val\<rparr>))"

text \<open>
  \<^verbatim>\<open>atomic.AddInt64(addr, delta)\<close> with no other thread running: the word at the address
  becomes its old value plus \<open>delta\<close>. On an element of a slice, taking the address
  \<^verbatim>\<open>&xs[i]\<close> panics out of range.
\<close>

definition atomic_AddInt64 :: "int64 \<Rightarrow> int64 \<Rightarrow> int64" where
  "atomic_AddInt64 old delta = old + delta"

definition atomic_AddInt64_at :: "int64 list \<Rightarrow> nat \<Rightarrow> int64 \<Rightarrow> panic + int64 list" where
  "atomic_AddInt64_at xs i delta =
     (if i < length xs then Inr (xs[i := atomic_AddInt64 (xs ! i) delta])
      else Inl index_out_of_range)"

text \<open>\<^verbatim>\<open>AtomicIncrement\<close> (lines 73-81), run with no other thread.\<close>

definition AtomicIncrement :: "Histogram \<Rightarrow> int64 \<Rightarrow> panic + Histogram" where
  "AtomicIncrement h val =
     (case Search (length (bucketBoundaries h)) (boundary_above h val) of
        Inl p \<Rightarrow> Inl p
      | Inr index \<Rightarrow>
          (case atomic_AddInt64_at (bucketCounts h) index 1 of
             Inl p \<Rightarrow> Inl p
           | Inr cs \<Rightarrow>
               (case atomic_AddInt64_at (bucketTotals h) index val of
                  Inl p \<Rightarrow> Inl p
                | Inr ts \<Rightarrow>
                    Inr (h\<lparr>bucketCounts := cs, bucketTotals := ts,
                           numSamples := atomic_AddInt64 (numSamples h) 1,
                           total_hist := atomic_AddInt64 (total_hist h) val\<rparr>))))"

section \<open>Accessors\<close>

text \<open>\<^verbatim>\<open>math.MinInt64\<close> and \<^verbatim>\<open>math.MaxInt64\<close>.\<close>

definition MinInt64 :: int64 where
  "MinInt64 = - (2 ^ 63)"

definition MaxInt64 :: int64 where
  "MaxInt64 = 2 ^ 63 - 1"

text \<open>Reading \<^verbatim>\<open>xs[index]\<close> with a caller's \<^verbatim>\<open>int\<close>.\<close>

definition slice_at :: "int64 list \<Rightarrow> int \<Rightarrow> panic + int64" where
  "slice_at xs index =
     (if 0 \<le> index \<and> index < int (length xs) then Inr (xs ! nat index)
      else Inl index_out_of_range)"

text \<open>\<^verbatim>\<open>BucketRanges\<close> (lines 84-95).\<close>

definition BucketRanges :: "Histogram \<Rightarrow> int \<Rightarrow> panic + (int64 \<times> int64)" where
  "BucketRanges h index =
     (if index < 0 \<or> index > int (length (bucketBoundaries h))
      then Inl (Panic ''index out of bound'')
      else if index = 0 then
        (case slice_at (bucketBoundaries h) index of
           Inl p \<Rightarrow> Inl p
         | Inr hi \<Rightarrow> Inr (MinInt64, hi))
      else if index = int (length (bucketBoundaries h)) then
        (case slice_at (bucketBoundaries h) (index - 1) of
           Inl p \<Rightarrow> Inl p
         | Inr lo \<Rightarrow> Inr (lo, MaxInt64))
      else
        (case slice_at (bucketBoundaries h) (index - 1) of
           Inl p \<Rightarrow> Inl p
         | Inr lo \<Rightarrow>
             (case slice_at (bucketBoundaries h) index of
                Inl p \<Rightarrow> Inl p
              | Inr hi \<Rightarrow> Inr (lo, hi))))"

text \<open>\<^verbatim>\<open>BucketCount\<close> and \<^verbatim>\<open>BucketTotal\<close> (lines 98-105).\<close>

definition BucketCount :: "Histogram \<Rightarrow> int \<Rightarrow> panic + int64" where
  "BucketCount h index = slice_at (bucketCounts h) index"

definition BucketTotal :: "Histogram \<Rightarrow> int \<Rightarrow> panic + int64" where
  "BucketTotal h index = slice_at (bucketTotals h) index"

text \<open>
  \<^verbatim>\<open>float64\<close> is modelled by \<open>real\<close>: the conversion \<^verbatim>\<open>float64(x)\<close> and the quotient are
  taken exactly, the rounding of IEEE 754 is left out. The branch that returns the
  literal \<^verbatim>\<open>0\<close> converts nothing and divides nothing.
\<close>

definition float64 :: "int64 \<Rightarrow> real" where
  "float64 x = real_of_int (sint x)"

text \<open>\<^verbatim>\<open>BucketAverage\<close> (lines 108-113).\<close>

definition BucketAverage :: "Histogram \<Rightarrow> int \<Rightarrow> panic + real" where
  "BucketAverage h index =
     (case slice_at (bucketCounts h) index of
        Inl p \<Rightarrow> Inl p
      | Inr c \<Rightarrow>
          if c = 0 then Inr 0
          else (case slice_at (bucketTotals h) index of
                  Inl p \<Rightarrow> Inl p
                | Inr t \<Rightarrow> Inr (float64 t / float64 c)))"

text \<open>\<^verbatim>\<open>Size\<close> (lines 116-121).\<close>

definition Size :: "Histogram \<Rightarrow> panic + nat" where
  "Size h =
     (if length (bucketCounts h) \<noteq> length (bucketTotals h)
      then Inl (Panic ''Mismatch in lengths of bucketCounts and bucketTotals'')
      else Inr (length (bucketCounts h)))"

text \<open>\<^verbatim>\<open>Count\<close>, \<^verbatim>\<open>Total\<close> and \<^verbatim>\<open>Average\<close> (lines 124-139).\<close>

definition Count :: "Histogram \<Rightarrow> int64" where
  "Count h = numSamples h"

definition Total :: "Histogram \<Rightarrow> int64" where
  "Total h = total_hist h"

definition Average :: "Histogram \<Rightarrow> real" where
  "Average h =
     (if numSamples h = 0 then 0
      else float64 (total_hist h) / float64 (numSamples h))"

section \<open>Clear and Copy\<close>

text \<open>
  The loop of \<^verbatim>\<open>Clear\<close> (lines 146-151): \<^verbatim>\<open>for i := range h.bucketCounts\<close> fixes the
  number of rounds, \<open>n\<close>, before the first one; each round writes two slice elements and
  the two scalar fields.
\<close>

function Clear_loop :: "Histogram \<Rightarrow> nat \<Rightarrow> nat \<Rightarrow> panic + Histogram" where
  "Clear_loop h i n =
     (if i < n
      then (if \<not> i < length (bucketCounts h) then Inl index_out_of_range
            else let h1 = h\<lparr>bucketCounts := (bucketCounts h)[i := 0]\<rparr> in
            if \<not> i < length (bucketTotals h1) then Inl index_out_of_range
            else let h2 = h1\<lparr>bucketTotals := (bucketTotals h1)[i := 0]\<rparr>;
                     h3 = h2\<lparr>numSamples := 0\<rparr>;
                     h4 = h3\<lparr>total_hist := 0\<rparr>
                 in Clear_loop h4 (i + 1) n)
      else Inr h)"
  by pat_completeness auto
termination
  by (relation "measure (\<lambda>(h, i, n). n - i)") auto

declare Clear_loop.simps [simp del]

text \<open>\<^verbatim>\<open>Clear\<close> (lines 142-152).\<close>

definition Clear :: "Histogram \<Rightarrow> panic + Histogram" where
  "Clear h =
     (if length (bucketCounts h) \<noteq> length (bucketTotals h)
      then Inl (Panic ''Mismatch in lengths of bucketCounts and bucketTotals'')
      else Clear_loop h 0 (length (bucketCounts h)))"

text \<open>
  \<^verbatim>\<open>Copy\<close> (lines 182-196): \<^verbatim>\<open>make\<close> and \<^verbatim>\<open>copy\<close> of a slice of the same length give a
  new slice with the same elements, so the copy is the same value in a new object.
\<close>

definition Copy :: "Histogram \<Rightarrow> Histogram" where
  "Copy h =
     \<lparr> bucketBoundaries = bucketBoundaries h,
       bucketCounts = bucketCounts h,
       bucketTotals = bucketTotals h,
       numSamples = numSamples h,
       total_hist = total_hist h \<rparr>"

section \<open>IncrementFromHistogram and DecrementFromHistogram\<close>

text \<open>
  Both methods take two pointers, which may be the same one, so they work on a store of
  \<^verbatim>\<open>Histogram\<close> objects: a reference is bound to the object it points to, and a reference
  that is not bound stands for \<^verbatim>\<open>nil\<close>. Every counter slice belongs to one object only
  (\<^verbatim>\<open>New\<close> and \<^verbatim>\<open>Copy\<close> make theirs), so an object holds its slices as values.
\<close>

type_synonym ref = nat

type_synonym store = "ref \<Rightarrow> Histogram option"

text \<open>
  \<^verbatim>\<open>h.bucketCounts[i] op= other.bucketCounts[i]\<close> and the same on \<^verbatim>\<open>bucketTotals\<close>, with
  \<open>op\<close> the \<^verbatim>\<open>+\<close> of \<^verbatim>\<open>IncrementFromHistogram\<close> or the \<^verbatim>\<open>-\<close> of
  \<^verbatim>\<open>DecrementFromHistogram\<close>: the two methods differ in nothing else. Both operands are
  read from the store as it is when the statement runs.
\<close>

definition assign_count :: "(int64 \<Rightarrow> int64 \<Rightarrow> int64) \<Rightarrow> store \<Rightarrow> ref \<Rightarrow> ref \<Rightarrow> nat \<Rightarrow> panic + store" where
  "assign_count op s h other i =
     (case s h of
        None \<Rightarrow> Inl nil_dereference
      | Some hv \<Rightarrow>
          (case s other of
             None \<Rightarrow> Inl nil_dereference
           | Some ov \<Rightarrow>
               if i < length (bucketCounts hv) \<and> i < length (bucketCounts ov)
               then Inr (s(h \<mapsto> hv\<lparr>bucketCounts :=
                           (bucketCounts hv)[i := op (bucketCounts hv ! i) (bucketCounts ov ! i)]\<rparr>))
               else Inl index_out_of_range))"

definition assign_total :: "(int64 \<Rightarrow> int64 \<Rightarrow> int64) \<Rightarrow> store \<Rightarrow> ref \<Rightarrow> ref \<Rightarrow> nat \<Rightarrow> panic + store" where
  "assign_total op s h other i =
     (case s h of
        None \<Rightarrow> Inl nil_dereference
      | Some hv \<Rightarrow>
          (case s other of
             None \<Rightarrow> Inl nil_dereference
           | Some ov \<Rightarrow>
               if i < length (bucketTotals hv) \<and> i < length (bucketTotals ov)
               then Inr (s(h \<mapsto> hv\<lparr>bucketTotals :=
                           (bucketTotals hv)[i := op (bucketTotals hv ! i) (bucketTotals ov ! i)]\<rparr>))
               else Inl index_out_of_range))"

text \<open>\<^verbatim>\<open>h.numSamples op= other.numSamples\<close> and \<^verbatim>\<open>h.total op= other.total\<close>.\<close>

definition assign_numSamples :: "(int64 \<Rightarrow> int64 \<Rightarrow> int64) \<Rightarrow> store \<Rightarrow> ref \<Rightarrow> ref \<Rightarrow> panic + store" where
  "assign_numSamples op s h other =
     (case s h of
        None \<Rightarrow> Inl nil_dereference
      | Some hv \<Rightarrow>
          (case s other of
             None \<Rightarrow> Inl nil_dereference
           | Some ov \<Rightarrow> Inr (s(h \<mapsto> hv\<lparr>numSamples := op (numSamples hv) (numSamples ov)\<rparr>))))"

definition assign_total_hist :: "(int64 \<Rightarrow> int64 \<Rightarrow> int64) \<Rightarrow> store \<Rightarrow> ref \<Rightarrow> ref \<Rightarrow> panic + store" where
  "assign_total_hist op s h other =
     (case s h of
        None \<Rightarrow> Inl nil_dereference
      | Some hv \<Rightarrow>
          (case s other of
             None \<Rightarrow> Inl nil_dereference
           | Some ov \<Rightarrow> Inr (s(h \<mapsto> hv\<lparr>total_hist := op (total_hist hv) (total_hist ov)\<rparr>))))"

text \<open>
  The measure of the loop below: the length of \<^verbatim>\<open>h.bucketCounts\<close> in a store. The two
  assignments of a round leave it as it is.
\<close>

definition len_bucketCounts :: "store \<Rightarrow> ref \<Rightarrow> nat" where
  "len_bucketCounts s h = (case s h of None \<Rightarrow> 0 | Some hv \<Rightarrow> length (bucketCounts hv))"

lemma len_assign_count:
  "assign_count op s h other i = Inr s1 \<Longrightarrow> len_bucketCounts s1 h = len_bucketCounts s h"
  by (auto simp: assign_count_def len_bucketCounts_def split: option.splits if_splits)

lemma len_assign_total:
  "assign_total op s h other i = Inr s1 \<Longrightarrow> len_bucketCounts s1 h = len_bucketCounts s h"
  by (auto simp: assign_total_def len_bucketCounts_def split: option.splits if_splits)

text \<open>
  The loop of both methods (lines 160-163 and 173-176):
  \<^verbatim>\<open>for i := 0; i < len(h.bucketCounts); i++\<close>, the length being read from the store
  before every round.
\<close>

function merge_loop :: "(int64 \<Rightarrow> int64 \<Rightarrow> int64) \<Rightarrow> store \<Rightarrow> ref \<Rightarrow> ref \<Rightarrow> nat \<Rightarrow> panic + store" where
  "merge_loop op s h other i =
     (case s h of
        None \<Rightarrow> Inl nil_dereference
      | Some hv \<Rightarrow>
          if i < length (bucketCounts hv)
          then (case assign_count op s h other i of
                  Inl p \<Rightarrow> Inl p
                | Inr s1 \<Rightarrow>
                    (case assign_total op s1 h other i of
                       Inl p \<Rightarrow> Inl p
                     | Inr s2 \<Rightarrow> merge_loop op s2 h other (i + 1)))
          else Inr s)"
  by pat_completeness auto
termination
proof (relation "measure (\<lambda>(op, s, h, other, i). len_bucketCounts s h - i)")
  show "wf (measure (\<lambda>(op, s, h, other, i). len_bucketCounts s h - i))"
    by simp
next
  fix op :: "int64 \<Rightarrow> int64 \<Rightarrow> int64" and s s1 s2 :: store and h other :: ref and i :: nat
    and hv :: Histogram
  assume "s h = Some hv" and "i < length (bucketCounts hv)"
    and "assign_count op s h other i = Inr s1"
    and "assign_total op s1 h other i = Inr s2"
  then show "((op, s2, h, other, i + 1), (op, s, h, other, i))
      \<in> measure (\<lambda>(op, s, h, other, i). len_bucketCounts s h - i)"
    by (simp add: len_assign_count len_assign_total) (simp add: len_bucketCounts_def)
qed

declare merge_loop.simps [simp del]

text \<open>
  The body shared by \<^verbatim>\<open>IncrementFromHistogram\<close> (lines 156-166) and
  \<^verbatim>\<open>DecrementFromHistogram\<close> (lines 169-179).
\<close>

definition merge_from :: "(int64 \<Rightarrow> int64 \<Rightarrow> int64) \<Rightarrow> store \<Rightarrow> ref \<Rightarrow> ref \<Rightarrow> panic + store" where
  "merge_from op s h other =
     (case s other of
        None \<Rightarrow> Inl nil_dereference
      | Some ov \<Rightarrow>
          (case s h of
             None \<Rightarrow> Inl nil_dereference
           | Some hv \<Rightarrow>
               if length (bucketBoundaries ov) \<noteq> length (bucketBoundaries hv)
               then Inl (Panic ''Mismatch in sizes of  bucketBoundaries'')
               else (case merge_loop op s h other 0 of
                       Inl p \<Rightarrow> Inl p
                     | Inr s1 \<Rightarrow>
                         (case assign_numSamples op s1 h other of
                            Inl p \<Rightarrow> Inl p
                          | Inr s2 \<Rightarrow> assign_total_hist op s2 h other))))"

definition IncrementFromHistogram :: "store \<Rightarrow> ref \<Rightarrow> ref \<Rightarrow> panic + store" where
  "IncrementFromHistogram s h other = merge_from (\<lambda>a b. a + b) s h other"

definition DecrementFromHistogram :: "store \<Rightarrow> ref \<Rightarrow> ref \<Rightarrow> panic + store" where
  "DecrementFromHistogram s h other = merge_from (\<lambda>a b. a - b) s h other"

section \<open>Range\<close>

text \<open>
  The loop of \<^verbatim>\<open>Range\<close> (bucketboundaries.go, lines 18-21); \<open>i < length\<close> keeps
  \<^verbatim>\<open>values[i]\<close> in range, since \<^verbatim>\<open>values\<close> was made with that length.
\<close>

function Range_loop :: "int64 list \<Rightarrow> int64 \<Rightarrow> int64 \<Rightarrow> nat \<Rightarrow> nat \<Rightarrow> int64 list" where
  "Range_loop values v step i len =
     (if i < len then Range_loop (values[i := v]) (v + step) step (i + 1) len
      else values)"
  by pat_completeness auto
termination
  by (relation "measure (\<lambda>(values, v, step, i, len). len - i)") auto

declare Range_loop.simps [simp del]

text \<open>
  Go's \<^verbatim>\<open>/\<close> on \<^verbatim>\<open>int64\<close> truncates towards zero, and the one quotient that does not fit,
  \<^verbatim>\<open>MinInt64 / -1\<close>, wraps around to \<^verbatim>\<open>MinInt64\<close>.
\<close>

definition go_div :: "int64 \<Rightarrow> int64 \<Rightarrow> int64" where
  "go_div a b = word_of_int (sint a sdiv sint b)"

text \<open>
  \<^verbatim>\<open>make([]int64, length)\<close>, as \<^verbatim>\<open>makeslice\<close> of Go's runtime does it: it panics with
  \<^verbatim>\<open>makeslice: len out of range\<close> when \<open>length\<close> is negative, and when the size in bytes,
  \<open>8 * length\<close>, overflows or exceeds the runtime's bound \<^verbatim>\<open>maxAlloc\<close> on one allocation.
  \<open>max_len\<close> is the largest length that passes this check; it is \<open>2^45\<close> on 64-bit Linux,
  where \<^verbatim>\<open>maxAlloc\<close> is \<open>2^48\<close>. The bound belongs to the runtime and not to the package,
  so it is a parameter. A machine that cannot give the memory of a slice within the
  bound is one with a smaller \<open>max_len\<close>.
\<close>

definition make_int64 :: "nat \<Rightarrow> int \<Rightarrow> panic + int64 list" where
  "make_int64 max_len len =
     (if len < 0 \<or> int max_len < len then Inl makeslice_len
      else Inr (replicate (nat len) 0))"

text \<open>
  \<^verbatim>\<open>Range\<close> (bucketboundaries.go, lines 3-23), on a runtime whose \<^verbatim>\<open>make\<close> allocates up to
  \<open>max_len\<close> elements. The result is \<open>None\<close> for \<^verbatim>\<open>nil\<close>.
\<close>

definition Range_hist :: "nat \<Rightarrow> int64 \<Rightarrow> int64 \<Rightarrow> int64 \<Rightarrow> panic + int64 list option" where
  "Range_hist max_len start stop step =
     (if step = 0 then Inr None
      else if 0 <s step \<and> stop <s start then Inr None
      else if step <s 0 \<and> start <s stop then Inr None
      else let len = sint (go_div (stop - start) step + 1) in
           case make_int64 max_len len of
             Inl p \<Rightarrow> Inl p
           | Inr values \<Rightarrow> Inr (Some (Range_loop values start step 0 (nat len))))"

section \<open>The histogram of the package's test\<close>

text \<open>
  \<^verbatim>\<open>TestHistogram\<close> builds a histogram on the boundaries \<^verbatim>\<open>[1, 2, 3, 4]\<close> and inserts
  \<^verbatim>\<open>1, 1, 2, 3, 0, 4\<close>. This is its state after the first two insertions.
\<close>

definition test_histogram :: Histogram where
  "test_histogram = \<lparr> bucketBoundaries = [1, 2, 3, 4], bucketCounts = [0, 2, 0, 0, 0],
                       bucketTotals = [0, 2, 0, 0, 0], numSamples = 2, total_hist = 2 \<rparr>"

section \<open>What the counters must satisfy\<close>

text \<open>
  The two sums that the struct's comments promise (\<^verbatim>\<open>numSamples\<close> tracks the number of
  samples, \<^verbatim>\<open>total\<close> their sum), on a histogram of the right shape. Sums are those of
  \<^verbatim>\<open>int64\<close>.
\<close>

definition consistent :: "Histogram \<Rightarrow> bool" where
  "consistent h \<longleftrightarrow>
     well_shaped h \<and>
     numSamples h = sum_list (bucketCounts h) \<and>
     total_hist h = sum_list (bucketTotals h)"

definition store_consistent :: "store \<Rightarrow> bool" where
  "store_consistent s \<longleftrightarrow> (\<forall>p h. s p = Some h \<longrightarrow> consistent h)"

text \<open>
  The stores that a single thread can build through the package: it starts with no
  histogram, \<^verbatim>\<open>New\<close> and \<^verbatim>\<open>Copy\<close> bind a reference that was not bound, and every other
  operation that returns changes the histogram it was called on. An operation that
  panics ends the run. The second histogram of \<^verbatim>\<open>IncrementFromHistogram\<close> and
  \<^verbatim>\<open>DecrementFromHistogram\<close> is any histogram of the store, the first one included.
\<close>

inductive reachable :: "store \<Rightarrow> bool" where
  start: "reachable Map.empty"
| new: "reachable s \<Longrightarrow> s p = None \<Longrightarrow> New b = Inr h \<Longrightarrow> reachable (s(p \<mapsto> h))"
| increment:
    "reachable s \<Longrightarrow> s p = Some h \<Longrightarrow> Increment h v = Inr h' \<Longrightarrow> reachable (s(p \<mapsto> h'))"
| atomic_increment:
    "reachable s \<Longrightarrow> s p = Some h \<Longrightarrow> AtomicIncrement h v = Inr h' \<Longrightarrow> reachable (s(p \<mapsto> h'))"
| clear: "reachable s \<Longrightarrow> s p = Some h \<Longrightarrow> Clear h = Inr h' \<Longrightarrow> reachable (s(p \<mapsto> h'))"
| increment_from: "reachable s \<Longrightarrow> IncrementFromHistogram s p q = Inr s' \<Longrightarrow> reachable s'"
| decrement_from: "reachable s \<Longrightarrow> DecrementFromHistogram s p q = Inr s' \<Longrightarrow> reachable s'"
| copy: "reachable s \<Longrightarrow> s p = Some h \<Longrightarrow> s q = None \<Longrightarrow> reachable (s(q \<mapsto> Copy h))"

text \<open>
  What the loop of the two merging methods has written after \<open>i\<close> rounds, and what the
  whole method leaves in the histogram it was called on.
\<close>

definition merged_from :: "(int64 \<Rightarrow> int64 \<Rightarrow> int64) \<Rightarrow> nat \<Rightarrow> int64 list \<Rightarrow> int64 list \<Rightarrow> int64 list" where
  "merged_from op i xs ys = take i xs @ map2 op (drop i xs) (drop i ys)"

definition combined :: "(int64 \<Rightarrow> int64 \<Rightarrow> int64) \<Rightarrow> Histogram \<Rightarrow> Histogram \<Rightarrow> Histogram" where
  "combined op hv ov =
     hv\<lparr>bucketCounts := map2 op (bucketCounts hv) (bucketCounts ov),
        bucketTotals := map2 op (bucketTotals hv) (bucketTotals ov),
        numSamples := op (numSamples hv) (numSamples ov),
        total_hist := op (total_hist hv) (total_hist ov)\<rparr>"

section \<open>Construction\<close>

text \<open>The loop of \<^verbatim>\<open>New\<close> runs to its end exactly when no adjacent pair is out of order.\<close>

lemma New_loop_iff:
  "New_loop b i \<longleftrightarrow> \<not> (\<exists>k. i \<le> k \<and> k + 1 < length b \<and> b ! (k + 1) \<le>s b ! k)"
proof (induction b i rule: New_loop.induct)
  case (1 b i)
  show ?case
  proof (cases "i + 1 < length b")
    case False
    then show ?thesis by (subst New_loop.simps) auto
  next
    case True
    show ?thesis
    proof (cases "b ! (i + 1) \<le>s b ! i")
      case True
      with \<open>i + 1 < length b\<close> show ?thesis
        by (subst New_loop.simps) auto
    next
      case False
      have "New_loop b i = New_loop b (i + 1)"
        using True False by (subst New_loop.simps) simp
      also have "\<dots> \<longleftrightarrow> \<not> (\<exists>k. i + 1 \<le> k \<and> k + 1 < length b \<and> b ! (k + 1) \<le>s b ! k)"
        using "1.IH" True False by simp
      also have "\<dots> \<longleftrightarrow> \<not> (\<exists>k. i \<le> k \<and> k + 1 < length b \<and> b ! (k + 1) \<le>s b ! k)"
      proof -
        have "k = i \<or> i + 1 \<le> k" if "i \<le> k" for k using that by auto
        then show ?thesis using False by (metis Suc_eq_plus1 Suc_leD)
      qed
      finally show ?thesis .
    qed
  qed
qed

text \<open>
  C2. \<^verbatim>\<open>New\<close> fails with \<^verbatim>\<open>emptyError\<close> exactly when the boundary slice is \<^verbatim>\<open>nil\<close>, so an
  empty slice that is not \<^verbatim>\<open>nil\<close> is not rejected as empty; it fails with
  \<^verbatim>\<open>invalidBoundariesError\<close> when some adjacent pair has \<^verbatim>\<open>b[i] >= b[i+1]\<close>; otherwise
  it returns a histogram on these boundaries whose \<open>N + 1\<close> bucket counts and \<open>N + 1\<close>
  bucket totals are zero and whose global count and total are zero.
\<close>

theorem New_contract:
  "(New arg = Inl emptyError \<longleftrightarrow> arg = None) \<and>
   New arg =
     (case arg of
        None \<Rightarrow> Inl emptyError
      | Some b \<Rightarrow>
          if (\<exists>i. i + 1 < length b \<and> b ! (i + 1) \<le>s b ! i)
          then Inl invalidBoundariesError
          else Inr \<lparr> bucketBoundaries = b,
                     bucketCounts = replicate (length b + 1) 0,
                     bucketTotals = replicate (length b + 1) 0,
                     numSamples = 0, total_hist = 0 \<rparr>)"
  by (cases arg) (auto simp: New_def New_loop_iff)

theorem New_contract_witness:
  "New None = Inl emptyError \<and>
   New (Some []) = Inr \<lparr> bucketBoundaries = [], bucketCounts = [0], bucketTotals = [0],
                          numSamples = 0, total_hist = 0 \<rparr> \<and>
   New (Some [1, 2, 3, 3, 4]) = Inl invalidBoundariesError"
proof -
  have "\<exists>i. i + 1 < length [1, 2, 3, 3, 4 :: int64] \<and> [1, 2, 3, 3, 4 :: int64] ! (i + 1) \<le>s [1, 2, 3, 3, 4] ! i"
    by (rule exI [of _ 2]) simp
  then show ?thesis
    using New_contract [of None] New_contract [of "Some []"] New_contract [of "Some [1, 2, 3, 3, 4]"]
    by simp
qed

section \<open>Bucket lookup\<close>

text \<open>
  \<^verbatim>\<open>sort.Search\<close> on a predicate that is monotone on \<open>[0, n)\<close> returns the least index at
  which it holds, and \<open>n\<close> when it holds nowhere.
\<close>

lemma Search_loop_least:
  assumes mono: "\<forall>a b. a \<le> b \<and> b < n \<and> P a \<longrightarrow> P b"
  shows "(\<forall>k<n. f k = Inr (P k)) \<Longrightarrow> i \<le> j \<Longrightarrow> j \<le> n \<Longrightarrow> (\<forall>k<i. \<not> P k) \<Longrightarrow> (j < n \<longrightarrow> P j) \<Longrightarrow>
         \<exists>r. Search_loop f i j = Inr r \<and> r \<le> n \<and> (\<forall>k<r. \<not> P k) \<and> (r < n \<longrightarrow> P r)"
proof (induction f i j rule: Search_loop.induct)
  case (1 f i j)
  show ?case
  proof (cases "i < j")
    case False
    with "1.prems" have "i = j" by simp
    with "1.prems" False show ?thesis
      by (subst Search_loop.simps) auto
  next
    case True
    let ?h = "(i + j) div 2"
    have h: "i \<le> ?h" "?h < j" "?h < n" using True "1.prems" by auto
    have fh: "f ?h = Inr (P ?h)" using "1.prems"(1) h by simp
    show ?thesis
    proof (cases "P ?h")
      case True
      have step: "Search_loop f i j = Search_loop f i ?h"
        using \<open>i < j\<close> fh True by (subst Search_loop.simps) (simp add: Let_def)
      have "\<exists>r. Search_loop f i ?h = Inr r \<and> r \<le> n \<and> (\<forall>k<r. \<not> P k) \<and> (r < n \<longrightarrow> P r)"
        using "1.IH"(2) [OF \<open>i < j\<close> refl fh] True h "1.prems"
        by simp
      then show ?thesis by (simp add: step)
    next
      case False
      have step: "Search_loop f i j = Search_loop f (?h + 1) j"
        using \<open>i < j\<close> fh False by (subst Search_loop.simps) (simp add: Let_def)
      have below: "\<forall>k<?h + 1. \<not> P k"
      proof (intro allI impI)
        fix k assume "k < ?h + 1"
        then have "k \<le> ?h" by simp
        with mono h False show "\<not> P k" by blast
      qed
      have "\<exists>r. Search_loop f (?h + 1) j = Inr r \<and> r \<le> n \<and> (\<forall>k<r. \<not> P k) \<and> (r < n \<longrightarrow> P r)"
        using "1.IH"(1) [OF \<open>i < j\<close> refl fh] False h "1.prems" below
        by simp
      then show ?thesis by (simp add: step)
    qed
  qed
qed

lemma boundary_above_mono:
  assumes "strictly_increasing bs" "a \<le> b" "b < length bs" "v <s bs ! a"
  shows "v <s bs ! b"
proof (cases "a = b")
  case True
  with assms show ?thesis by simp
next
  case False
  with assms have "bs ! a <s bs ! b"
    by (simp add: strictly_increasing_def sorted_wrt_nth_less)
  with assms(4) show ?thesis by (rule signed.less_trans)
qed

lemma Search_boundaries:
  assumes "strictly_increasing (bucketBoundaries h)"
  shows "\<exists>r. Search (length (bucketBoundaries h)) (boundary_above h v) = Inr r \<and>
             r \<le> length (bucketBoundaries h) \<and>
             (\<forall>k<r. \<not> v <s bucketBoundaries h ! k) \<and>
             (r < length (bucketBoundaries h) \<longrightarrow> v <s bucketBoundaries h ! r)"
  unfolding Search_def
proof (rule Search_loop_least)
  show "\<forall>a b. a \<le> b \<and> b < length (bucketBoundaries h) \<and> v <s bucketBoundaries h ! a
          \<longrightarrow> v <s bucketBoundaries h ! b"
    using assms boundary_above_mono by blast
  show "\<forall>k<length (bucketBoundaries h). boundary_above h v k = Inr (v <s bucketBoundaries h ! k)"
    by (simp add: boundary_above_def slice_get_def)
qed simp_all

text \<open>Whatever the boundaries are, the search returns an index in \<open>[0, n]\<close>.\<close>

lemma Search_loop_returns:
  "(\<forall>k<n. \<exists>b. f k = Inr b) \<Longrightarrow> i \<le> j \<Longrightarrow> j \<le> n \<Longrightarrow>
   \<exists>r. Search_loop f i j = Inr r \<and> i \<le> r \<and> r \<le> j"
proof (induction f i j rule: Search_loop.induct)
  case (1 f i j)
  show ?case
  proof (cases "i < j")
    case False
    with "1.prems" show ?thesis by (subst Search_loop.simps) simp
  next
    case True
    let ?h = "(i + j) div 2"
    have h: "i \<le> ?h" "?h < j" "?h < n" using True "1.prems" by auto
    with "1.prems"(1) obtain b where fh: "f ?h = Inr b" by blast
    show ?thesis
    proof (cases b)
      case True
      have "Search_loop f i j = Search_loop f i ?h"
        using \<open>i < j\<close> fh True by (subst Search_loop.simps) (simp add: Let_def)
      moreover have "\<exists>r. Search_loop f i ?h = Inr r \<and> i \<le> r \<and> r \<le> ?h"
        using "1.IH"(2) [OF \<open>i < j\<close> refl fh] True h "1.prems" by simp
      ultimately show ?thesis using h by auto
    next
      case False
      have "Search_loop f i j = Search_loop f (?h + 1) j"
        using \<open>i < j\<close> fh False by (subst Search_loop.simps) (simp add: Let_def)
      moreover have "\<exists>r. Search_loop f (?h + 1) j = Inr r \<and> ?h + 1 \<le> r \<and> r \<le> j"
        using "1.IH"(1) [OF \<open>i < j\<close> refl fh] False h "1.prems" by simp
      ultimately show ?thesis using h by auto
    qed
  qed
qed

lemma Search_no_panic:
  "\<exists>r. Search (length (bucketBoundaries h)) (boundary_above h v) = Inr r \<and>
       r \<le> length (bucketBoundaries h)"
proof -
  have "\<forall>k<length (bucketBoundaries h). \<exists>b. boundary_above h v k = Inr b"
    by (simp add: boundary_above_def slice_get_def)
  from Search_loop_returns [OF this, of 0 "length (bucketBoundaries h)"]
  show ?thesis by (auto simp: Search_def)
qed

section \<open>Increment\<close>

text \<open>
  What \<^verbatim>\<open>Increment\<close> does on a histogram of the right shape with strictly increasing
  boundaries: the search returns the least index whose boundary exceeds the value, and
  the four additions happen there.
\<close>

lemma Increment_least_index:
  assumes "well_shaped h" and "strictly_increasing (bucketBoundaries h)"
  shows "\<exists>i h'. Increment h v = Inr h' \<and>
           i \<le> length (bucketBoundaries h) \<and>
           (\<forall>k<i. \<not> v <s bucketBoundaries h ! k) \<and>
           (i < length (bucketBoundaries h) \<longrightarrow> v <s bucketBoundaries h ! i) \<and>
           bucketCounts h' = (bucketCounts h)[i := bucketCounts h ! i + 1] \<and>
           bucketTotals h' = (bucketTotals h)[i := bucketTotals h ! i + v] \<and>
           numSamples h' = numSamples h + 1 \<and>
           total_hist h' = total_hist h + v \<and>
           bucketBoundaries h' = bucketBoundaries h"
proof -
  from Search_boundaries [OF assms(2), of v] obtain r where
    r: "Search (length (bucketBoundaries h)) (boundary_above h v) = Inr r"
       "r \<le> length (bucketBoundaries h)"
       "\<forall>k<r. \<not> v <s bucketBoundaries h ! k"
       "r < length (bucketBoundaries h) \<longrightarrow> v <s bucketBoundaries h ! r"
    by blast
  from r(2) assms(1) have "r < length (bucketCounts h)" "r < length (bucketTotals h)"
    by (simp_all add: well_shaped_def)
  then have "Increment h v = Inr (h\<lparr>bucketCounts := (bucketCounts h)[r := bucketCounts h ! r + 1],
      bucketTotals := (bucketTotals h)[r := bucketTotals h ! r + v],
      numSamples := numSamples h + 1, total_hist := total_hist h + v\<rparr>)"
    by (simp add: Increment_def r(1) Let_def)
  with r show ?thesis by auto
qed

text \<open>
  C1. On a histogram with strictly increasing boundaries of length \<open>N\<close>, \<^verbatim>\<open>Increment(v)\<close>
  returns, and there is an index \<open>i\<close> in \<open>[0, N]\<close>, the smallest one whose boundary exceeds
  \<open>v\<close> (\<open>N\<close> when no boundary does), such that \<^verbatim>\<open>bucketCounts[i]\<close> has grown by 1 and
  \<^verbatim>\<open>bucketTotals[i]\<close> by \<open>v\<close>, the global count by 1 and the global total by \<open>v\<close>; the
  other buckets and the boundaries are as before. The additions are those of \<^verbatim>\<open>int64\<close>.
\<close>

theorem Increment_contract:
  assumes "well_shaped h" and "strictly_increasing (bucketBoundaries h)"
  shows "\<exists>i h'. Increment h v = Inr h' \<and>
           i \<le> length (bucketBoundaries h) \<and>
           (\<forall>k<i. \<not> v <s bucketBoundaries h ! k) \<and>
           (i < length (bucketBoundaries h) \<longrightarrow> v <s bucketBoundaries h ! i) \<and>
           bucketCounts h' = (bucketCounts h)[i := bucketCounts h ! i + 1] \<and>
           bucketTotals h' = (bucketTotals h)[i := bucketTotals h ! i + v] \<and>
           numSamples h' = numSamples h + 1 \<and>
           total_hist h' = total_hist h + v \<and>
           bucketBoundaries h' = bucketBoundaries h"
  using assms by (rule Increment_least_index)

theorem Increment_contract_witness:
  "well_shaped test_histogram \<and>
   strictly_increasing (bucketBoundaries test_histogram) \<and>
   (\<exists>i h'. Increment test_histogram 3 = Inr h' \<and>
           i \<le> length (bucketBoundaries test_histogram) \<and>
           (\<forall>k<i. \<not> 3 <s bucketBoundaries test_histogram ! k) \<and>
           (i < length (bucketBoundaries test_histogram) \<longrightarrow> 3 <s bucketBoundaries test_histogram ! i) \<and>
           bucketCounts h' = (bucketCounts test_histogram)[i := bucketCounts test_histogram ! i + 1] \<and>
           bucketTotals h' = (bucketTotals test_histogram)[i := bucketTotals test_histogram ! i + 3] \<and>
           numSamples h' = numSamples test_histogram + 1 \<and>
           total_hist h' = total_hist test_histogram + 3 \<and>
           bucketBoundaries h' = bucketBoundaries test_histogram)"
proof -
  have ws: "well_shaped test_histogram"
    by (simp add: well_shaped_def test_histogram_def)
  have si: "strictly_increasing (bucketBoundaries test_histogram)"
    by (simp add: strictly_increasing_def test_histogram_def word_sless_alt)
  show ?thesis
    by (rule conjI [OF ws conjI [OF si Increment_contract [OF ws si]]])
qed

section \<open>AtomicIncrement\<close>

lemma AtomicIncrement_Increment: "AtomicIncrement h val = Increment h val"
  by (simp add: AtomicIncrement_def Increment_def atomic_AddInt64_at_def atomic_AddInt64_def
      Let_def split: sum.splits)

text \<open>
  C8. With no other thread running, \<^verbatim>\<open>AtomicIncrement(value)\<close> and \<^verbatim>\<open>Increment(value)\<close>
  give the same result on every histogram. On a histogram of the right shape that
  result is a histogram, not a panic. When the boundaries are strictly increasing as
  well, both return the same histogram, in which the bucket at the smallest index whose
  boundary exceeds the value (\<open>N\<close> when no boundary does) has its count grown by 1 and
  its total by the value, the global count has grown by 1 and the global total by the
  value, and nothing else has changed.
\<close>

theorem AtomicIncrement_eq_Increment:
  "AtomicIncrement h val = Increment h val \<and>
   (well_shaped h \<longrightarrow> (\<exists>h'. AtomicIncrement h val = Inr h')) \<and>
   (well_shaped h \<and> strictly_increasing (bucketBoundaries h) \<longrightarrow>
      (\<exists>i h'. AtomicIncrement h val = Inr h' \<and> Increment h val = Inr h' \<and>
         i \<le> length (bucketBoundaries h) \<and>
         (\<forall>k<i. \<not> val <s bucketBoundaries h ! k) \<and>
         (i < length (bucketBoundaries h) \<longrightarrow> val <s bucketBoundaries h ! i) \<and>
         bucketCounts h' = (bucketCounts h)[i := bucketCounts h ! i + 1] \<and>
         bucketTotals h' = (bucketTotals h)[i := bucketTotals h ! i + val] \<and>
         numSamples h' = numSamples h + 1 \<and>
         total_hist h' = total_hist h + val \<and>
         bucketBoundaries h' = bucketBoundaries h))"
proof (intro conjI impI)
  show "AtomicIncrement h val = Increment h val"
    by (rule AtomicIncrement_Increment)
next
  assume ws: "well_shaped h"
  from Search_no_panic [of h val] obtain r where
    r: "Search (length (bucketBoundaries h)) (boundary_above h val) = Inr r"
       "r \<le> length (bucketBoundaries h)" by blast
  with ws show "\<exists>h'. AtomicIncrement h val = Inr h'"
    by (simp add: AtomicIncrement_def atomic_AddInt64_at_def well_shaped_def)
next
  assume "well_shaped h \<and> strictly_increasing (bucketBoundaries h)"
  then have ws: "well_shaped h" and si: "strictly_increasing (bucketBoundaries h)"
    by simp_all
  from Increment_least_index [OF ws si, of val] obtain i h' where
    "Increment h val = Inr h'"
    "i \<le> length (bucketBoundaries h)"
    "\<forall>k<i. \<not> val <s bucketBoundaries h ! k"
    "i < length (bucketBoundaries h) \<longrightarrow> val <s bucketBoundaries h ! i"
    "bucketCounts h' = (bucketCounts h)[i := bucketCounts h ! i + 1]"
    "bucketTotals h' = (bucketTotals h)[i := bucketTotals h ! i + val]"
    "numSamples h' = numSamples h + 1"
    "total_hist h' = total_hist h + val"
    "bucketBoundaries h' = bucketBoundaries h"
    by blast
  moreover from this(1) have "AtomicIncrement h val = Inr h'"
    by (simp add: AtomicIncrement_Increment)
  ultimately show "\<exists>i h'. AtomicIncrement h val = Inr h' \<and> Increment h val = Inr h' \<and>
         i \<le> length (bucketBoundaries h) \<and>
         (\<forall>k<i. \<not> val <s bucketBoundaries h ! k) \<and>
         (i < length (bucketBoundaries h) \<longrightarrow> val <s bucketBoundaries h ! i) \<and>
         bucketCounts h' = (bucketCounts h)[i := bucketCounts h ! i + 1] \<and>
         bucketTotals h' = (bucketTotals h)[i := bucketTotals h ! i + val] \<and>
         numSamples h' = numSamples h + 1 \<and>
         total_hist h' = total_hist h + val \<and>
         bucketBoundaries h' = bucketBoundaries h"
    by blast
qed

theorem AtomicIncrement_eq_Increment_witness:
  "well_shaped test_histogram \<and>
   strictly_increasing (bucketBoundaries test_histogram) \<and>
   AtomicIncrement test_histogram 2 = Increment test_histogram 2 \<and>
   AtomicIncrement test_histogram 2 =
     Inr \<lparr> bucketBoundaries = [1, 2, 3, 4], bucketCounts = [0, 2, 1, 0, 0],
           bucketTotals = [0, 2, 2, 0, 0], numSamples = 3, total_hist = 4 \<rparr> \<and>
   (\<exists>i h'. AtomicIncrement test_histogram 2 = Inr h' \<and> Increment test_histogram 2 = Inr h' \<and>
         i \<le> length (bucketBoundaries test_histogram) \<and>
         (\<forall>k<i. \<not> 2 <s bucketBoundaries test_histogram ! k) \<and>
         (i < length (bucketBoundaries test_histogram) \<longrightarrow> 2 <s bucketBoundaries test_histogram ! i) \<and>
         bucketCounts h' = (bucketCounts test_histogram)[i := bucketCounts test_histogram ! i + 1] \<and>
         bucketTotals h' = (bucketTotals test_histogram)[i := bucketTotals test_histogram ! i + 2] \<and>
         numSamples h' = numSamples test_histogram + 1 \<and>
         total_hist h' = total_hist test_histogram + 2 \<and>
         bucketBoundaries h' = bucketBoundaries test_histogram)"
proof -
  have ev: "Increment test_histogram 2 =
     Inr \<lparr> bucketBoundaries = [1, 2, 3, 4], bucketCounts = [0, 2, 1, 0, 0],
           bucketTotals = [0, 2, 2, 0, 0], numSamples = 3, total_hist = 4 \<rparr>"
    by (simp add: test_histogram_def Increment_def Search_def Search_loop.simps
        boundary_above_def slice_get_def word_sless_alt)
  have ws: "well_shaped test_histogram"
    by (simp add: well_shaped_def test_histogram_def)
  have si: "strictly_increasing (bucketBoundaries test_histogram)"
    by (simp add: strictly_increasing_def test_histogram_def word_sless_alt)
  note c = AtomicIncrement_eq_Increment [of test_histogram 2]
  have eq: "AtomicIncrement test_histogram 2 = Increment test_histogram 2"
    by (rule c [THEN conjunct1])
  have val: "AtomicIncrement test_histogram 2 =
     Inr \<lparr> bucketBoundaries = [1, 2, 3, 4], bucketCounts = [0, 2, 1, 0, 0],
           bucketTotals = [0, 2, 2, 0, 0], numSamples = 3, total_hist = 4 \<rparr>"
    unfolding eq by (rule ev)
  note upd = c [THEN conjunct2, THEN conjunct2, rule_format, OF conjI [OF ws si]]
  show ?thesis
    by (rule conjI [OF ws conjI [OF si conjI [OF eq conjI [OF val upd]]]])
qed

section \<open>Accessors\<close>

text \<open>
  C6. With \<open>N \<ge> 1\<close> boundaries, \<^verbatim>\<open>BucketRanges(0)\<close> is \<open>(MinInt64, boundaries[0])\<close>,
  \<^verbatim>\<open>BucketRanges(N)\<close> is \<open>(boundaries[N-1], MaxInt64)\<close>, \<^verbatim>\<open>BucketRanges(i)\<close> for \<open>0 < i < N\<close>
  is \<open>(boundaries[i-1], boundaries[i])\<close>, and an index outside \<open>[0, N]\<close> panics with the
  method's own message; no error value is returned.
\<close>

theorem BucketRanges_contract:
  assumes "1 \<le> length (bucketBoundaries h)"
  shows "BucketRanges h 0 = Inr (MinInt64, bucketBoundaries h ! 0) \<and>
         BucketRanges h (int (length (bucketBoundaries h))) =
           Inr (bucketBoundaries h ! (length (bucketBoundaries h) - 1), MaxInt64) \<and>
         (\<forall>i. 0 < i \<and> i < length (bucketBoundaries h) \<longrightarrow>
            BucketRanges h (int i) = Inr (bucketBoundaries h ! (i - 1), bucketBoundaries h ! i)) \<and>
         (\<forall>index. index < 0 \<or> int (length (bucketBoundaries h)) < index \<longrightarrow>
            BucketRanges h index = Inl (Panic ''index out of bound''))"
  using assms by (auto simp: BucketRanges_def slice_at_def nat_diff_distrib')

theorem BucketRanges_contract_witness:
  "1 \<le> length (bucketBoundaries test_histogram) \<and>
   BucketRanges test_histogram 0 = Inr (MinInt64, 1) \<and>
   BucketRanges test_histogram 4 = Inr (4, MaxInt64) \<and>
   BucketRanges test_histogram 2 = Inr (2, 3) \<and>
   BucketRanges test_histogram 5 = Inl (Panic ''index out of bound'') \<and>
   BucketRanges test_histogram (- 1) = Inl (Panic ''index out of bound'')"
proof -
  have n: "1 \<le> length (bucketBoundaries test_histogram)"
    by (simp add: test_histogram_def)
  have b: "bucketBoundaries test_histogram = [1, 2, 3, 4]"
    by (simp add: test_histogram_def)
  note c = BucketRanges_contract [OF n]
  have "BucketRanges test_histogram 0 = Inr (MinInt64, bucketBoundaries test_histogram ! 0)"
    by (rule c [THEN conjunct1])
  moreover have "BucketRanges test_histogram (int (length (bucketBoundaries test_histogram))) =
       Inr (bucketBoundaries test_histogram ! (length (bucketBoundaries test_histogram) - 1), MaxInt64)"
    by (rule c [THEN conjunct2, THEN conjunct1])
  moreover have "BucketRanges test_histogram (int 2) =
         Inr (bucketBoundaries test_histogram ! (2 - 1), bucketBoundaries test_histogram ! 2)"
    by (rule c [THEN conjunct2, THEN conjunct2, THEN conjunct1, rule_format]) (simp add: b)
  moreover have "BucketRanges test_histogram 5 = Inl (Panic ''index out of bound'')"
    by (rule c [THEN conjunct2, THEN conjunct2, THEN conjunct2, rule_format]) (simp add: b)
  moreover have "BucketRanges test_histogram (- 1) = Inl (Panic ''index out of bound'')"
    by (rule c [THEN conjunct2, THEN conjunct2, THEN conjunct2, rule_format]) simp
  ultimately show ?thesis using n by (simp add: b)
qed

text \<open>
  C10. \<^verbatim>\<open>New\<close> accepts an empty boundary slice that is not \<^verbatim>\<open>nil\<close> and returns a
  histogram of one bucket, whose \<^verbatim>\<open>Size()\<close> is 1. On it \<^verbatim>\<open>BucketRanges(0)\<close> passes the
  method's own bound check, since 0 lies in \<open>[0, N]\<close> with \<open>N = 0\<close>, and then panics on
  reading position 0 of the empty boundary slice.
\<close>

theorem BucketRanges_empty_boundaries:
  "New (Some []) = Inr \<lparr> bucketBoundaries = [], bucketCounts = [0], bucketTotals = [0],
                          numSamples = 0, total_hist = 0 \<rparr> \<and>
   Size \<lparr> bucketBoundaries = [], bucketCounts = [0], bucketTotals = [0],
          numSamples = 0, total_hist = 0 \<rparr> = Inr 1 \<and>
   BucketRanges \<lparr> bucketBoundaries = [], bucketCounts = [0], bucketTotals = [0],
                  numSamples = 0, total_hist = 0 \<rparr> 0 = Inl index_out_of_range \<and>
   BucketRanges \<lparr> bucketBoundaries = [], bucketCounts = [0], bucketTotals = [0],
                  numSamples = 0, total_hist = 0 \<rparr> 0 \<noteq> Inl (Panic ''index out of bound'')"
  by (simp add: New_def New_loop.simps Size_def BucketRanges_def slice_at_def
      index_out_of_range_def)

text \<open>
  C9. At an index in range whose bucket count is 0, \<^verbatim>\<open>BucketAverage\<close> returns 0, and
  \<^verbatim>\<open>Average\<close> returns 0 when the global count is 0: both return the literal zero of the
  guarded branch, with no panic and no division.
\<close>

theorem averages_zero_default:
  "(\<forall>index. 0 \<le> index \<and> index < int (length (bucketCounts h)) \<and>
            bucketCounts h ! nat index = 0 \<longrightarrow>
      BucketCount h index = Inr 0 \<and> BucketAverage h index = Inr 0) \<and>
   (Count h = 0 \<longrightarrow> Average h = 0)"
  by (simp add: BucketCount_def BucketAverage_def Count_def Average_def slice_at_def)

theorem averages_zero_default_witness:
  "BucketAverage test_histogram 3 = Inr 0 \<and>
   BucketAverage test_histogram 1 = Inr 1 \<and>
   Count (test_histogram\<lparr>numSamples := 0\<rparr>) = 0 \<and>
   Average (test_histogram\<lparr>numSamples := 0\<rparr>) = 0"
proof -
  have "0 \<le> (3::int) \<and> 3 < int (length (bucketCounts test_histogram)) \<and>
        bucketCounts test_histogram ! nat 3 = 0"
    by (simp add: test_histogram_def)
  with averages_zero_default [of test_histogram]
  have "BucketAverage test_histogram 3 = Inr 0" by blast
  moreover have "BucketAverage test_histogram 1 = Inr 1"
    by (simp add: BucketAverage_def slice_at_def test_histogram_def float64_def)
  moreover have c: "Count (test_histogram\<lparr>numSamples := 0\<rparr>) = 0"
    by (simp add: Count_def)
  moreover have "Average (test_histogram\<lparr>numSamples := 0\<rparr>) = 0"
    using averages_zero_default [of "test_histogram\<lparr>numSamples := 0\<rparr>"] c by blast
  ultimately show ?thesis by simp
qed

section \<open>Clear\<close>

lemma take_Suc_update:
  "i < length xs \<Longrightarrow> take (Suc i) (xs[i := a]) = take i xs @ [a]"
  by (simp add: take_Suc_conv_app_nth)

lemma update_last_position:
  "Suc i = length xs \<Longrightarrow> xs[i := a] = take i xs @ [a]"
  by (simp add: upd_conv_take_nth_drop)

lemma Clear_loop_result:
  "length (bucketCounts h) = n \<Longrightarrow> length (bucketTotals h) = n \<Longrightarrow> i \<le> n \<Longrightarrow>
   Clear_loop h i n =
     Inr (if i < n
          then h\<lparr>bucketCounts := take i (bucketCounts h) @ replicate (n - i) 0,
                 bucketTotals := take i (bucketTotals h) @ replicate (n - i) 0,
                 numSamples := 0, total_hist := 0\<rparr>
          else h)"
proof (induction h i n rule: Clear_loop.induct)
  case (1 h i n)
  show ?case
  proof (cases "i < n")
    case False
    then show ?thesis by (subst Clear_loop.simps) simp
  next
    case True
    let ?h4 = "h\<lparr>bucketCounts := (bucketCounts h)[i := 0],
                   bucketTotals := (bucketTotals h)[i := 0],
                   numSamples := 0, total_hist := 0\<rparr>"
    have step: "Clear_loop h i n = Clear_loop ?h4 (Suc i) n"
      using True "1.prems" by (subst Clear_loop.simps) (simp add: Let_def)
    have IH: "Clear_loop ?h4 (Suc i) n =
      Inr (if Suc i < n
           then ?h4\<lparr>bucketCounts := take (Suc i) (bucketCounts ?h4) @ replicate (n - Suc i) 0,
                  bucketTotals := take (Suc i) (bucketTotals ?h4) @ replicate (n - Suc i) 0,
                  numSamples := 0, total_hist := 0\<rparr>
           else ?h4)"
      using "1.IH" [of "h\<lparr>bucketCounts := (bucketCounts h)[i := 0]\<rparr>"
          "h\<lparr>bucketCounts := (bucketCounts h)[i := 0], bucketTotals := (bucketTotals h)[i := 0]\<rparr>"
          "h\<lparr>bucketCounts := (bucketCounts h)[i := 0], bucketTotals := (bucketTotals h)[i := 0], numSamples := 0\<rparr>"
          ?h4] True "1.prems"
      by simp
    have rep: "replicate (n - i) (0::int64) = 0 # replicate (n - Suc i) 0"
      using True by (cases "n - i") simp_all
    show ?thesis
    proof (cases "Suc i < n")
      case True
      then show ?thesis
        using \<open>i < n\<close> "1.prems" unfolding step IH by (simp add: take_Suc_update rep)
    next
      case False
      with \<open>i < n\<close> have "Suc i = n" by simp
      moreover from this have "n - i = Suc 0" by simp
      ultimately show ?thesis
        using \<open>i < n\<close> "1.prems" unfolding step IH by (simp add: update_last_position)
    qed
  qed
qed

text \<open>
  C7. On every histogram of the right shape \<^verbatim>\<open>Clear\<close> returns; afterwards every bucket
  count, every bucket total, the global count and the global total are zero, the
  boundaries and \<^verbatim>\<open>Size()\<close> are as before, and every read of a counter (\<^verbatim>\<open>Count\<close>,
  \<^verbatim>\<open>Total\<close>, \<^verbatim>\<open>Average\<close>, and \<^verbatim>\<open>BucketCount\<close>, \<^verbatim>\<open>BucketTotal\<close>, \<^verbatim>\<open>BucketAverage\<close> at an
  index in range) returns zero.
\<close>

theorem Clear_contract:
  assumes "well_shaped h"
  shows "\<exists>h'. Clear h = Inr h' \<and>
           bucketBoundaries h' = bucketBoundaries h \<and>
           Size h' = Size h \<and> Size h' = Inr (length (bucketBoundaries h) + 1) \<and>
           bucketCounts h' = replicate (length (bucketBoundaries h) + 1) 0 \<and>
           bucketTotals h' = replicate (length (bucketBoundaries h) + 1) 0 \<and>
           numSamples h' = 0 \<and> total_hist h' = 0 \<and>
           Count h' = 0 \<and> Total h' = 0 \<and> Average h' = 0 \<and>
           (\<forall>index. 0 \<le> index \<and> index \<le> int (length (bucketBoundaries h)) \<longrightarrow>
              BucketCount h' index = Inr 0 \<and> BucketTotal h' index = Inr 0 \<and>
              BucketAverage h' index = Inr 0)"
proof -
  let ?n = "length (bucketBoundaries h) + 1"
  let ?h' = "h\<lparr>bucketCounts := replicate ?n 0, bucketTotals := replicate ?n 0,
                 numSamples := 0, total_hist := 0\<rparr>"
  from assms have len: "length (bucketCounts h) = ?n" "length (bucketTotals h) = ?n"
    by (simp_all add: well_shaped_def)
  then have "Clear h = Clear_loop h 0 ?n"
    by (simp add: Clear_def)
  also have "\<dots> = Inr ?h'"
    using Clear_loop_result [OF len, of 0] by simp
  finally have "Clear h = Inr ?h'" .
  moreover have "Size ?h' = Size h" "Size ?h' = Inr ?n"
    using len by (simp_all add: Size_def)
  moreover have "Count ?h' = 0" "Total ?h' = 0" "Average ?h' = 0"
    by (simp_all add: Count_def Total_def Average_def)
  moreover have "BucketCount ?h' index = Inr 0 \<and> BucketTotal ?h' index = Inr 0 \<and>
              BucketAverage ?h' index = Inr 0"
    if "0 \<le> index \<and> index \<le> int (length (bucketBoundaries h))" for index
  proof -
    from that have "nat index < ?n" by linarith
    then have "replicate ?n (0::int64) ! nat index = 0" by (rule nth_replicate)
    with that show ?thesis
      by (simp add: BucketCount_def BucketTotal_def BucketAverage_def slice_at_def
          del: replicate.simps replicate_Suc)
  qed
  ultimately show ?thesis
    by (intro exI [of _ ?h']) simp
qed

theorem Clear_contract_witness:
  "well_shaped test_histogram \<and>
   Clear test_histogram =
     Inr \<lparr> bucketBoundaries = [1, 2, 3, 4], bucketCounts = [0, 0, 0, 0, 0],
           bucketTotals = [0, 0, 0, 0, 0], numSamples = 0, total_hist = 0 \<rparr>"
proof -
  have ws: "well_shaped test_histogram"
    by (simp add: well_shaped_def test_histogram_def)
  from Clear_contract [OF ws] obtain h' where
    "Clear test_histogram = Inr h'"
    "bucketBoundaries h' = bucketBoundaries test_histogram"
    "bucketCounts h' = replicate (length (bucketBoundaries test_histogram) + 1) 0"
    "bucketTotals h' = replicate (length (bucketBoundaries test_histogram) + 1) 0"
    "numSamples h' = 0" "total_hist h' = 0"
    by blast
  then show ?thesis using ws
    by (cases h') (simp add: test_histogram_def numeral_eq_Suc)
qed

section \<open>IncrementFromHistogram and DecrementFromHistogram: what they compute\<close>

lemma merged_from_step:
  assumes "i < length xs" "i < length ys" "drop (Suc i) ys' = drop (Suc i) ys"
  shows "merged_from op (Suc i) (xs[i := op (xs ! i) (ys ! i)]) ys' = merged_from op i xs ys"
proof -
  have "drop i xs = xs ! i # drop (Suc i) xs" "drop i ys = ys ! i # drop (Suc i) ys"
    using assms by (simp_all add: Cons_nth_drop_Suc)
  then show ?thesis
    using assms by (simp add: merged_from_def take_Suc_update)
qed

lemma merged_from_end: "length xs \<le> i \<Longrightarrow> merged_from op i xs ys = xs"
  by (simp add: merged_from_def)

lemma merge_loop_result:
  "s h = Some hv \<Longrightarrow> s other = Some ov \<Longrightarrow>
   length (bucketCounts hv) = n \<Longrightarrow> length (bucketTotals hv) = n \<Longrightarrow>
   n \<le> length (bucketCounts ov) \<Longrightarrow> n \<le> length (bucketTotals ov) \<Longrightarrow> i \<le> n \<Longrightarrow>
   merge_loop op s h other i =
     Inr (s(h \<mapsto> hv\<lparr>bucketCounts := merged_from op i (bucketCounts hv) (bucketCounts ov),
                      bucketTotals := merged_from op i (bucketTotals hv) (bucketTotals ov)\<rparr>))"
proof (induction op s h other i arbitrary: hv ov rule: merge_loop.induct)
  case (1 op s h other i)
  show ?case
  proof (cases "i < n")
    case False
    with "1.prems" have "i = n" by simp
    with "1.prems" have "merge_loop op s h other i = Inr s"
      by (subst merge_loop.simps) simp
    moreover have "s(h \<mapsto> hv) = s" using "1.prems"(1) by (simp add: fun_upd_idem)
    ultimately show ?thesis
      using "1.prems" \<open>i = n\<close> by (simp add: merged_from_end)
  next
    case True
    let ?cs = "(bucketCounts hv)[i := op (bucketCounts hv ! i) (bucketCounts ov ! i)]"
    let ?ts = "(bucketTotals hv)[i := op (bucketTotals hv ! i) (bucketTotals ov ! i)]"
    let ?hv1 = "hv\<lparr>bucketCounts := ?cs\<rparr>"
    let ?hv2 = "hv\<lparr>bucketCounts := ?cs, bucketTotals := ?ts\<rparr>"
    let ?s1 = "s(h \<mapsto> ?hv1)"
    let ?s2 = "s(h \<mapsto> ?hv2)"
    let ?ov2 = "if other = h then ?hv2 else ov"
    have same: "other = h \<Longrightarrow> ov = hv" using "1.prems"(1,2) by simp
    have a1: "assign_count op s h other i = Inr ?s1"
      using True "1.prems" by (simp add: assign_count_def)
    have a2: "assign_total op ?s1 h other i = Inr ?s2"
      using True "1.prems" same by (auto simp: assign_total_def)
    have step: "merge_loop op s h other i = merge_loop op ?s2 h other (i + 1)"
      using True "1.prems"
      by (subst merge_loop.simps) (simp add: a1 a2)
    have o2: "?s2 other = Some ?ov2" using "1.prems"(2) by simp
    have IH: "merge_loop op ?s2 h other (i + 1) =
      Inr (?s2(h \<mapsto> ?hv2\<lparr>bucketCounts := merged_from op (i + 1) (bucketCounts ?hv2) (bucketCounts ?ov2),
                      bucketTotals := merged_from op (i + 1) (bucketTotals ?hv2) (bucketTotals ?ov2)\<rparr>))"
    proof (rule "1.IH" [OF "1.prems"(1) _ a1 a2 _ o2])
      show "i < length (bucketCounts hv)" using True "1.prems" by simp
      show "?s2 h = Some ?hv2" by simp
      show "length (bucketCounts ?hv2) = n" "length (bucketTotals ?hv2) = n"
        using "1.prems" by simp_all
      show "n \<le> length (bucketCounts ?ov2)" "n \<le> length (bucketTotals ?ov2)"
        using "1.prems" by simp_all
      show "i + 1 \<le> n" using True by simp
    qed
    have eqc: "merged_from op (i + 1) (bucketCounts ?hv2) (bucketCounts ?ov2)
        = merged_from op i (bucketCounts hv) (bucketCounts ov)"
      using True "1.prems" same by (simp add: merged_from_step)
    have eqt: "merged_from op (i + 1) (bucketTotals ?hv2) (bucketTotals ?ov2)
        = merged_from op i (bucketTotals hv) (bucketTotals ov)"
      using True "1.prems" same by (simp add: merged_from_step)
    show ?thesis
      unfolding step IH eqc eqt by (auto simp: fun_upd_def)
  qed
qed

lemma merged_from_0: "merged_from op 0 xs ys = map2 op xs ys"
  by (simp add: merged_from_def)

lemma merge_from_result:
  assumes "s h = Some hv" "s other = Some ov" "well_shaped hv" "well_shaped ov"
    and "length (bucketBoundaries ov) = length (bucketBoundaries hv)"
  shows "merge_from op s h other = Inr (s(h \<mapsto> combined op hv ov))"
proof -
  let ?n = "length (bucketBoundaries hv) + 1"
  let ?hvL = "hv\<lparr>bucketCounts := map2 op (bucketCounts hv) (bucketCounts ov),
                  bucketTotals := map2 op (bucketTotals hv) (bucketTotals ov)\<rparr>"
  have same: "other = h \<Longrightarrow> ov = hv" using assms(1,2) by simp
  have len: "length (bucketCounts hv) = ?n" "length (bucketTotals hv) = ?n"
            "?n \<le> length (bucketCounts ov)" "?n \<le> length (bucketTotals ov)"
    using assms(3,4,5) by (simp_all add: well_shaped_def)
  have loop: "merge_loop op s h other 0 = Inr (s(h \<mapsto> ?hvL))"
    using merge_loop_result [OF assms(1,2) len, of 0 op] by (simp add: merged_from_0)
  have n1: "assign_numSamples op (s(h \<mapsto> ?hvL)) h other =
             Inr (s(h \<mapsto> ?hvL\<lparr>numSamples := op (numSamples hv) (numSamples ov)\<rparr>))"
    using assms(2) same by (auto simp: assign_numSamples_def)
  have n2: "assign_total_hist op (s(h \<mapsto> ?hvL\<lparr>numSamples := op (numSamples hv) (numSamples ov)\<rparr>)) h other =
             Inr (s(h \<mapsto> combined op hv ov))"
    using assms(2) same by (auto simp: assign_total_hist_def combined_def)
  show ?thesis
    using assms(1,2,5) by (simp add: merge_from_def loop n1 n2)
qed

lemma well_shaped_combined:
  "well_shaped hv \<Longrightarrow> well_shaped ov \<Longrightarrow>
   length (bucketBoundaries ov) = length (bucketBoundaries hv) \<Longrightarrow> well_shaped (combined op hv ov)"
  by (simp add: well_shaped_def combined_def)

lemma map2_sub_add:
  "length xs = length ys \<Longrightarrow> map2 (\<lambda>a b. a - b) (map2 (\<lambda>a b. a + b) xs ys) ys = (xs :: int64 list)"
  by (induction xs ys rule: list_induct2) simp_all

lemma combined_round_trip:
  assumes "well_shaped hv" "well_shaped ov"
    and "length (bucketBoundaries ov) = length (bucketBoundaries hv)"
  shows "combined (\<lambda>a b. a - b) (combined (\<lambda>a b. a + b) hv ov) ov = hv"
proof -
  have "length (bucketCounts hv) = length (bucketCounts ov)"
       "length (bucketTotals hv) = length (bucketTotals ov)"
    using assms by (simp_all add: well_shaped_def)
  then show ?thesis
    by (simp add: combined_def map2_sub_add)
qed

text \<open>
  C4, as amended. When the target and the source are two different \<^verbatim>\<open>Histogram\<close> objects
  of the right shape whose boundary slices have the same length,
  \<^verbatim>\<open>IncrementFromHistogram(source)\<close> followed by \<^verbatim>\<open>DecrementFromHistogram(source)\<close> on the
  target returns both times and leaves the target, and with it the whole store, as it
  was before the two calls.
\<close>

theorem merge_round_trip:
  assumes "h \<noteq> other" "s h = Some hv" "s other = Some ov"
    and "well_shaped hv" "well_shaped ov"
    and "length (bucketBoundaries ov) = length (bucketBoundaries hv)"
  shows "\<exists>s1 s2. IncrementFromHistogram s h other = Inr s1 \<and>
                 DecrementFromHistogram s1 h other = Inr s2 \<and>
                 s2 h = Some hv \<and> s2 = s"
proof -
  let ?s1 = "s(h \<mapsto> combined (\<lambda>a b. a + b) hv ov)"
  have inc: "IncrementFromHistogram s h other = Inr ?s1"
    unfolding IncrementFromHistogram_def
    by (rule merge_from_result [OF assms(2-6)])
  have "DecrementFromHistogram ?s1 h other =
          Inr (?s1(h \<mapsto> combined (\<lambda>a b. a - b) (combined (\<lambda>a b. a + b) hv ov) ov))"
    unfolding DecrementFromHistogram_def
  proof (rule merge_from_result)
    show "?s1 h = Some (combined (\<lambda>a b. a + b) hv ov)" by simp
    show "?s1 other = Some ov" using assms(1,3) by simp
    show "well_shaped (combined (\<lambda>a b. a + b) hv ov)"
      using assms by (simp add: well_shaped_combined)
    show "well_shaped ov" by fact
    show "length (bucketBoundaries ov) = length (bucketBoundaries (combined (\<lambda>a b. a + b) hv ov))"
      using assms(6) by (simp add: combined_def)
  qed
  also have "?s1(h \<mapsto> combined (\<lambda>a b. a - b) (combined (\<lambda>a b. a + b) hv ov) ov) = s"
    using assms by (simp add: combined_round_trip fun_upd_idem)
  finally have "DecrementFromHistogram ?s1 h other = Inr s" .
  with inc assms(2) show ?thesis by blast
qed

theorem merge_round_trip_witness:
  "(0::ref) \<noteq> 1 \<and>
   IncrementFromHistogram
     (Map.empty(0 \<mapsto> test_histogram, 1 \<mapsto> test_histogram\<lparr>bucketCounts := [1, 0, 0, 0, 5]\<rparr>)) 0 1 =
     Inr (Map.empty(0 \<mapsto> test_histogram\<lparr>bucketCounts := [1, 2, 0, 0, 5], bucketTotals := [0, 4, 0, 0, 0],
                         numSamples := 4, total_hist := 4\<rparr>,
                    1 \<mapsto> test_histogram\<lparr>bucketCounts := [1, 0, 0, 0, 5]\<rparr>)) \<and>
   DecrementFromHistogram
     (Map.empty(0 \<mapsto> test_histogram\<lparr>bucketCounts := [1, 2, 0, 0, 5], bucketTotals := [0, 4, 0, 0, 0],
                         numSamples := 4, total_hist := 4\<rparr>,
                    1 \<mapsto> test_histogram\<lparr>bucketCounts := [1, 0, 0, 0, 5]\<rparr>)) 0 1 =
     Inr (Map.empty(0 \<mapsto> test_histogram, 1 \<mapsto> test_histogram\<lparr>bucketCounts := [1, 0, 0, 0, 5]\<rparr>))"
proof -
  let ?o = "test_histogram\<lparr>bucketCounts := [1, 0, 0, 0, 5]\<rparr>"
  let ?s = "Map.empty(0::ref \<mapsto> test_histogram, 1 \<mapsto> ?o)"
  let ?s1 = "Map.empty(0::ref \<mapsto> test_histogram\<lparr>bucketCounts := [1, 2, 0, 0, 5], bucketTotals := [0, 4, 0, 0, 0],
                         numSamples := 4, total_hist := 4\<rparr>, 1 \<mapsto> ?o)"
  have d: "(0::ref) \<noteq> 1" by simp
  have t: "?s 0 = Some test_histogram" by simp
  have o: "?s 1 = Some ?o" by simp
  have wt: "well_shaped test_histogram" by (simp add: well_shaped_def test_histogram_def)
  have wo: "well_shaped ?o" by (simp add: well_shaped_def test_histogram_def)
  have l: "length (bucketBoundaries ?o) = length (bucketBoundaries test_histogram)" by simp
  from merge_round_trip [OF d t o wt wo l] obtain s1 where
    s1: "IncrementFromHistogram ?s 0 1 = Inr s1" "DecrementFromHistogram s1 0 1 = Inr ?s"
    by blast
  have "IncrementFromHistogram ?s 0 1 = Inr ?s1"
    unfolding IncrementFromHistogram_def
    by (subst merge_from_result [OF t o wt wo l])
       (auto simp: combined_def test_histogram_def fun_upd_def)
  with s1 d show ?thesis by simp
qed

text \<open>
  C4 as stated fails when the source is the target itself, whose boundary slice has the
  length of its own: on the histogram built by \<^verbatim>\<open>New([5])\<close> and \<^verbatim>\<open>Increment(7)\<close>,
  \<^verbatim>\<open>h.IncrementFromHistogram(h)\<close> doubles every counter and \<^verbatim>\<open>h.DecrementFromHistogram(h)\<close>
  then subtracts the doubled counters from themselves, so the global count ends at 0
  and not at 1.
\<close>

theorem merge_round_trip_same_object:
  "New (Some [5]) = Inr \<lparr> bucketBoundaries = [5], bucketCounts = [0, 0], bucketTotals = [0, 0],
                           numSamples = 0, total_hist = 0 \<rparr> \<and>
   Increment \<lparr> bucketBoundaries = [5], bucketCounts = [0, 0], bucketTotals = [0, 0],
               numSamples = 0, total_hist = 0 \<rparr> 7 =
     Inr \<lparr> bucketBoundaries = [5], bucketCounts = [0, 1], bucketTotals = [0, 7],
           numSamples = 1, total_hist = 7 \<rparr> \<and>
   IncrementFromHistogram
     (Map.empty(0 \<mapsto> \<lparr> bucketBoundaries = [5], bucketCounts = [0, 1], bucketTotals = [0, 7],
                          numSamples = 1, total_hist = 7 \<rparr>)) 0 0 =
     Inr (Map.empty(0 \<mapsto> \<lparr> bucketBoundaries = [5], bucketCounts = [0, 2], bucketTotals = [0, 14],
                               numSamples = 2, total_hist = 14 \<rparr>)) \<and>
   DecrementFromHistogram
     (Map.empty(0 \<mapsto> \<lparr> bucketBoundaries = [5], bucketCounts = [0, 2], bucketTotals = [0, 14],
                          numSamples = 2, total_hist = 14 \<rparr>)) 0 0 =
     Inr (Map.empty(0 \<mapsto> \<lparr> bucketBoundaries = [5], bucketCounts = [0, 0], bucketTotals = [0, 0],
                               numSamples = 0, total_hist = 0 \<rparr>)) \<and>
   Count \<lparr> bucketBoundaries = [5], bucketCounts = [0, 0], bucketTotals = [0, 0],
           numSamples = 0, total_hist = 0 \<rparr> \<noteq>
   Count \<lparr> bucketBoundaries = [5], bucketCounts = [0, 1], bucketTotals = [0, 7],
           numSamples = 1, total_hist = 7 \<rparr>"
proof -
  let ?h1 = "\<lparr> bucketBoundaries = [5 :: int64], bucketCounts = [0, 1 :: int64], bucketTotals = [0, 7 :: int64],
                numSamples = 1 :: int64, total_hist = 7 :: int64 \<rparr>"
  let ?h2 = "\<lparr> bucketBoundaries = [5 :: int64], bucketCounts = [0, 2 :: int64], bucketTotals = [0, 14 :: int64],
                numSamples = 2 :: int64, total_hist = 14 :: int64 \<rparr>"
  have "New (Some [5]) = Inr \<lparr> bucketBoundaries = [5], bucketCounts = [0, 0], bucketTotals = [0, 0],
                           numSamples = 0, total_hist = 0 \<rparr>"
    by (simp add: New_def New_loop.simps)
  moreover have "Increment \<lparr> bucketBoundaries = [5], bucketCounts = [0, 0], bucketTotals = [0, 0],
               numSamples = 0, total_hist = 0 \<rparr> 7 = Inr ?h1"
    by (simp add: Increment_def Search_def Search_loop.simps boundary_above_def slice_get_def
        word_sless_alt)
  moreover have "IncrementFromHistogram (Map.empty(0 \<mapsto> ?h1)) 0 0 = Inr (Map.empty(0::ref \<mapsto> ?h2))"
    unfolding IncrementFromHistogram_def
    by (subst merge_from_result [where hv = ?h1 and ov = ?h1])
       (simp_all add: well_shaped_def combined_def)
  moreover have "DecrementFromHistogram (Map.empty(0 \<mapsto> ?h2)) 0 0 =
      Inr (Map.empty(0 \<mapsto> \<lparr> bucketBoundaries = [5], bucketCounts = [0, 0], bucketTotals = [0, 0],
                               numSamples = 0, total_hist = 0 \<rparr>))"
    unfolding DecrementFromHistogram_def
    by (subst merge_from_result [where hv = ?h2 and ov = ?h2])
       (simp_all add: well_shaped_def combined_def)
  ultimately show ?thesis by (simp add: Count_def)
qed

section \<open>The global counters are the sums of the buckets\<close>

lemma sum_list_update_add:
  "i < length xs \<Longrightarrow> sum_list (xs[i := xs ! i + d]) = sum_list xs + (d :: int64)"
proof (induction xs arbitrary: i)
  case Nil
  then show ?case by simp
next
  case (Cons x xs)
  then show ?case by (cases i) simp_all
qed

lemma sum_list_map2_add:
  "length xs = length ys \<Longrightarrow>
   sum_list (map2 (\<lambda>a b. a + b) xs ys) = sum_list xs + (sum_list ys :: int64)"
  by (induction xs ys rule: list_induct2) simp_all

lemma sum_list_map2_sub:
  "length xs = length ys \<Longrightarrow>
   sum_list (map2 (\<lambda>a b. a - b) xs ys) = sum_list xs - (sum_list ys :: int64)"
  by (induction xs ys rule: list_induct2) simp_all

lemma consistent_New: "New b = Inr h \<Longrightarrow> consistent h"
  by (auto simp: New_def consistent_def well_shaped_def sum_list_replicate
      split: option.splits if_splits)

lemma consistent_Increment:
  assumes "consistent h" "Increment h v = Inr h'"
  shows "consistent h'"
proof -
  from Search_no_panic [of h v] obtain r where
    r: "Search (length (bucketBoundaries h)) (boundary_above h v) = Inr r"
       "r \<le> length (bucketBoundaries h)" by blast
  with assms(1) have "r < length (bucketCounts h)" "r < length (bucketTotals h)"
    by (simp_all add: consistent_def well_shaped_def)
  with assms r show ?thesis
    by (auto simp: Increment_def Let_def consistent_def well_shaped_def sum_list_update_add)
qed
lemma consistent_Clear:
  assumes "consistent h" "Clear h = Inr h'"
  shows "consistent h'"
proof -
  let ?n = "length (bucketBoundaries h) + 1"
  from assms(1) have len: "length (bucketCounts h) = ?n" "length (bucketTotals h) = ?n"
    by (simp_all add: consistent_def well_shaped_def)
  then have "Clear h = Clear_loop h 0 ?n" by (simp add: Clear_def)
  with assms(2) Clear_loop_result [OF len, of 0]
  have "h' = h\<lparr>bucketCounts := replicate ?n 0, bucketTotals := replicate ?n 0,
                 numSamples := 0, total_hist := 0\<rparr>"
    by simp
  then show ?thesis by (simp add: consistent_def well_shaped_def sum_list_replicate)
qed

lemma consistent_Copy: "consistent h \<Longrightarrow> consistent (Copy h)"
  by (simp add: consistent_def well_shaped_def Copy_def)

lemma consistent_combined:
  assumes "consistent hv" "consistent ov"
    and "length (bucketBoundaries ov) = length (bucketBoundaries hv)"
  shows "consistent (combined (\<lambda>a b. a + b) hv ov)" "consistent (combined (\<lambda>a b. a - b) hv ov)"
proof -
  have "length (bucketCounts hv) = length (bucketCounts ov)"
       "length (bucketTotals hv) = length (bucketTotals ov)"
    using assms by (simp_all add: consistent_def well_shaped_def)
  with assms show "consistent (combined (\<lambda>a b. a + b) hv ov)"
    "consistent (combined (\<lambda>a b. a - b) hv ov)"
    by (simp_all add: consistent_def well_shaped_def combined_def sum_list_map2_add sum_list_map2_sub)
qed

lemma merge_from_Inr:
  assumes "merge_from op s h other = Inr s'"
  obtains hv ov where "s h = Some hv" "s other = Some ov"
    "length (bucketBoundaries ov) = length (bucketBoundaries hv)"
  using assms by (auto simp: merge_from_def split: option.splits if_splits)
lemma store_consistent_update:
  "store_consistent s \<Longrightarrow> consistent h \<Longrightarrow> store_consistent (s(p \<mapsto> h))"
  by (simp add: store_consistent_def)

lemma store_consistent_merge:
  assumes "store_consistent s"
    and "merge_from op s h other = Inr s'"
    and "op = (\<lambda>a b. a + b) \<or> op = (\<lambda>a b. a - b)"
  shows "store_consistent s'"
proof -
  from assms(2) obtain hv ov where
    hv: "s h = Some hv" and ov: "s other = Some ov"
    and len: "length (bucketBoundaries ov) = length (bucketBoundaries hv)"
    by (rule merge_from_Inr)
  from assms(1) hv ov have c: "consistent hv" "consistent ov"
    by (auto simp: store_consistent_def)
  then have ws: "well_shaped hv" "well_shaped ov" by (simp_all add: consistent_def)
  from merge_from_result [OF hv ov ws len, of op] assms(2)
  have "s' = s(h \<mapsto> combined op hv ov)" by simp
  moreover have "consistent (combined op hv ov)"
    using assms(3) consistent_combined [OF c len] by auto
  ultimately show ?thesis
    using assms(1) by (simp add: store_consistent_update)
qed

lemma reachable_consistent: "reachable s \<Longrightarrow> store_consistent s"
proof (induction rule: reachable.induct)
  case start
  show ?case by (simp add: store_consistent_def)
next
  case (new s p b h)
  from new.IH consistent_New [OF new.hyps(3)] show ?case
    by (rule store_consistent_update)
next
  case (increment s p h v h')
  then have "consistent h" by (simp add: store_consistent_def)
  then have "consistent h'" using increment.hyps(3) by (rule consistent_Increment)
  with increment.IH show ?case by (rule store_consistent_update)
next
  case (atomic_increment s p h v h')
  then have "consistent h" by (simp add: store_consistent_def)
  moreover have "Increment h v = Inr h'"
    using atomic_increment.hyps(3) by (simp add: AtomicIncrement_Increment)
  ultimately have "consistent h'" by (rule consistent_Increment)
  with atomic_increment.IH show ?case by (rule store_consistent_update)
next
  case (clear s p h h')
  then have "consistent h" by (simp add: store_consistent_def)
  then have "consistent h'" using clear.hyps(3) by (rule consistent_Clear)
  with clear.IH show ?case by (rule store_consistent_update)
next
  case (increment_from s p q s')
  then show ?case
    by (auto simp: IncrementFromHistogram_def intro: store_consistent_merge)
next
  case (decrement_from s p q s')
  then show ?case
    by (auto simp: DecrementFromHistogram_def intro: store_consistent_merge)
next
  case (copy s p h q)
  then have "consistent h" by (simp add: store_consistent_def)
  then have "consistent (Copy h)" by (rule consistent_Copy)
  with copy.IH show ?case by (rule store_consistent_update)
qed

lemma consistent_reads:
  assumes "consistent h"
  shows "Size h = Inr (length (bucketCounts h))"
    and "map (\<lambda>i. BucketCount h (int i)) [0..<length (bucketCounts h)] = map Inr (bucketCounts h)"
    and "map (\<lambda>i. BucketTotal h (int i)) [0..<length (bucketCounts h)] = map Inr (bucketTotals h)"
proof -
  from assms have len: "length (bucketTotals h) = length (bucketCounts h)"
    by (simp add: consistent_def well_shaped_def)
  then show "Size h = Inr (length (bucketCounts h))" by (simp add: Size_def)
  show "map (\<lambda>i. BucketCount h (int i)) [0..<length (bucketCounts h)] = map Inr (bucketCounts h)"
    by (rule nth_equalityI) (simp_all add: BucketCount_def slice_at_def)
  show "map (\<lambda>i. BucketTotal h (int i)) [0..<length (bucketCounts h)] = map Inr (bucketTotals h)"
    using len by (intro nth_equalityI) (simp_all add: BucketTotal_def slice_at_def)
qed

text \<open>
  C3. In every store that a single thread can build from \<^verbatim>\<open>New\<close> by \<^verbatim>\<open>Increment\<close>,
  \<^verbatim>\<open>AtomicIncrement\<close>, \<^verbatim>\<open>Clear\<close>, \<^verbatim>\<open>IncrementFromHistogram\<close>, \<^verbatim>\<open>DecrementFromHistogram\<close> and
  \<^verbatim>\<open>Copy\<close>, every histogram has a \<^verbatim>\<open>Size()\<close>, \<^verbatim>\<open>BucketCount(i)\<close> and \<^verbatim>\<open>BucketTotal(i)\<close>
  return for every \<open>i\<close> in \<open>[0, Size())\<close>, \<^verbatim>\<open>Count()\<close> is the sum of the former and
  \<^verbatim>\<open>Total()\<close> the sum of the latter, as \<^verbatim>\<open>int64\<close> sums.
\<close>

theorem count_total_invariant:
  assumes "reachable s" and "s p = Some h"
  shows "\<exists>n cs ts. Size h = Inr n \<and>
           map (\<lambda>i. BucketCount h (int i)) [0..<n] = map Inr cs \<and>
           map (\<lambda>i. BucketTotal h (int i)) [0..<n] = map Inr ts \<and>
           Count h = sum_list cs \<and> Total h = sum_list ts"
proof -
  from assms have c: "consistent h"
    using reachable_consistent by (auto simp: store_consistent_def)
  then have "Count h = sum_list (bucketCounts h)" "Total h = sum_list (bucketTotals h)"
    by (simp_all add: consistent_def Count_def Total_def)
  with consistent_reads [OF c] show ?thesis by blast
qed

theorem count_total_invariant_witness:
  "reachable (Map.empty(0 \<mapsto> test_histogram)) \<and>
   (Map.empty(0 \<mapsto> test_histogram)) (0::ref) = Some test_histogram \<and>
   (\<exists>n cs ts. Size test_histogram = Inr n \<and>
           map (\<lambda>i. BucketCount test_histogram (int i)) [0..<n] = map Inr cs \<and>
           map (\<lambda>i. BucketTotal test_histogram (int i)) [0..<n] = map Inr ts \<and>
           Count test_histogram = sum_list cs \<and> Total test_histogram = sum_list ts)"
proof -
  let ?h0 = "\<lparr> bucketBoundaries = [1, 2, 3, 4 :: int64], bucketCounts = [0, 0, 0, 0, 0 :: int64],
                bucketTotals = [0, 0, 0, 0, 0 :: int64], numSamples = 0 :: int64, total_hist = 0 :: int64 \<rparr>"
  let ?h1 = "\<lparr> bucketBoundaries = [1, 2, 3, 4 :: int64], bucketCounts = [0, 1, 0, 0, 0 :: int64],
                bucketTotals = [0, 1, 0, 0, 0 :: int64], numSamples = 1 :: int64, total_hist = 1 :: int64 \<rparr>"
  have n: "New (Some [1, 2, 3, 4]) = Inr ?h0"
    by (simp add: New_def New_loop.simps word_sle_eq)
  have a1: "AtomicIncrement ?h0 1 = Inr ?h1"
    by (simp add: AtomicIncrement_def atomic_AddInt64_at_def atomic_AddInt64_def
        Search_def Search_loop.simps boundary_above_def slice_get_def word_sless_alt)
  have a2: "AtomicIncrement ?h1 1 = Inr test_histogram"
    by (simp add: AtomicIncrement_def atomic_AddInt64_at_def atomic_AddInt64_def test_histogram_def
        Search_def Search_loop.simps boundary_above_def slice_get_def word_sless_alt)
  have "reachable (Map.empty(0::ref \<mapsto> ?h0))"
    by (rule reachable.new [OF reachable.start _ n]) simp
  then have "reachable ((Map.empty(0::ref \<mapsto> ?h0))(0 \<mapsto> ?h1))"
    by (rule reachable.atomic_increment [OF _ _ a1]) simp
  then have "reachable ((Map.empty(0::ref \<mapsto> ?h0, 0 \<mapsto> ?h1))(0 \<mapsto> test_histogram))"
    by (rule reachable.atomic_increment [OF _ _ a2]) simp
  then have r: "reachable (Map.empty(0::ref \<mapsto> test_histogram))"
    by simp
  have l: "(Map.empty(0 \<mapsto> test_histogram)) (0::ref) = Some test_histogram"
    by simp
  show ?thesis
    by (rule conjI [OF r conjI [OF l count_total_invariant [OF r l]]])
qed

section \<open>Range\<close>

text \<open>The loop of \<^verbatim>\<open>Range\<close> fills position \<open>k\<close> with \<open>start + k * step\<close>.\<close>

lemma Range_loop_result:
  "length vals = len \<Longrightarrow> i \<le> len \<Longrightarrow>
   length (Range_loop vals v step i len) = len \<and>
   (\<forall>k<len. Range_loop vals v step i len ! k =
      (if k < i then vals ! k else v + of_nat (k - i) * step))"
proof (induction vals v step i len rule: Range_loop.induct)
  case (1 vals v step i len)
  show ?case
  proof (cases "i < len")
    case False
    with "1.prems" show ?thesis by (subst Range_loop.simps, subst Range_loop.simps) simp
  next
    case True
    have step: "Range_loop vals v step i len = Range_loop (vals[i := v]) (v + step) step (i + 1) len"
      using True by (subst Range_loop.simps) simp
    from "1.IH" [OF True] "1.prems" True
    have len: "length (Range_loop (vals[i := v]) (v + step) step (i + 1) len) = len"
      and nth: "\<forall>k<len. Range_loop (vals[i := v]) (v + step) step (i + 1) len ! k =
        (if k < i + 1 then vals[i := v] ! k else v + step + of_nat (k - (i + 1)) * step)"
      by simp_all
    have "Range_loop (vals[i := v]) (v + step) step (i + 1) len ! k =
        (if k < i then vals ! k else v + of_nat (k - i) * step)" if "k < len" for k
    proof -
      consider "k < i" | "k = i" | "i < k" by linarith
      then show ?thesis
      proof cases
        case 1
        with nth that show ?thesis by simp
      next
        case 2
        with nth that "1.prems" show ?thesis by simp
      next
        case 3
        then have "k - i = Suc (k - (i + 1))" by simp
        with 3 nth that show ?thesis by (simp add: algebra_simps)
      qed
    qed
    with len show ?thesis unfolding step by simp
  qed
qed

text \<open>Signed reading of \<^verbatim>\<open>int64\<close> results that stay inside the type.\<close>

lemma sint_in_range: "- (2 ^ 63) \<le> z \<Longrightarrow> z < 2 ^ 63 \<Longrightarrow> sint (word_of_int z :: int64) = z"
  by (simp add: sint_sbintrunc' signed_take_bit_int_eq_self)

lemma sint_bounds: "- (2 ^ 63) \<le> sint (x :: int64)" "sint (x :: int64) < 2 ^ 63"
  using sint_ge [of x] sint_lt [of x] by simp_all

lemma sint_sub_in_range:
  "- (2 ^ 63) \<le> sint b - sint a \<Longrightarrow> sint b - sint a < 2 ^ 63 \<Longrightarrow>
   sint (b - a :: int64) = sint b - sint a"
proof -
  assume r: "- (2 ^ 63) \<le> sint b - sint a" "sint b - sint a < 2 ^ 63"
  have "b - a = word_of_int (sint b - sint a)" by simp
  then show ?thesis using sint_in_range [OF r] by simp
qed

lemma sint_eq_0: "sint (w :: int64) = 0 \<longleftrightarrow> w = 0"
proof
  assume "sint w = 0"
  then have "word_of_int (sint w) = (word_of_int 0 :: int64)" by simp
  then show "w = 0" by simp
qed simp

text \<open>
  When the difference and the step have the same sign, truncating and flooring division
  agree and the quotient is not negative; the multiples of the step up to the quotient
  stay between 0 and the difference.
\<close>

lemma same_sign_sdiv:
  fixes d k :: int
  assumes "(0 < k \<and> 0 \<le> d) \<or> (k < 0 \<and> d \<le> 0)"
  shows "d sdiv k = d div k" "0 \<le> d div k"
proof -
  show "d sdiv k = d div k"
  proof (cases "d = 0")
    case True
    then show ?thesis by simp
  next
    case False
    with assms have "sgn d = sgn k" by auto
    then show ?thesis by (simp add: signed_divide_int_eq_divide_int)
  qed
  show "0 \<le> d div k"
    using assms by (auto simp: div_int_pos_iff)
qed

lemma step_multiples_between:
  fixes d k :: int
  assumes "(0 < k \<and> 0 \<le> d) \<or> (k < 0 \<and> d \<le> 0)" and "int i \<le> d div k"
  shows "(0 < k \<longrightarrow> 0 \<le> int i * k \<and> int i * k \<le> d) \<and>
         (k < 0 \<longrightarrow> d \<le> int i * k \<and> int i * k \<le> 0)"
proof (intro conjI impI)
  assume k: "0 < k"
  then show "0 \<le> int i * k" by simp
  have "int i * k \<le> (d div k) * k" using assms(2) k by (simp add: mult_right_mono)
  also have "\<dots> = d - d mod k" by (simp add: algebra_simps minus_mod_eq_mult_div)
  also have "\<dots> \<le> d" using k by simp
  finally show "int i * k \<le> d" .
next
  assume k: "k < 0"
  then show "int i * k \<le> 0" by (simp add: mult_nonneg_nonpos)
  have "d \<le> d - d mod k" using k by simp
  also have "\<dots> = (d div k) * k" by (simp add: algebra_simps minus_mod_eq_mult_div)
  also have "\<dots> \<le> int i * k" using assms(2) k by (simp add: mult_right_mono_neg)
  finally show "d \<le> int i * k" .
qed

lemma Range_hist_regular:
  fixes start stop step :: int64
  assumes ne: "step \<noteq> 0"
    and dir: "\<not> (0 <s step \<and> stop <s start)" "\<not> (step <s 0 \<and> start <s stop)"
    and fit: "- (2 ^ 63) \<le> sint stop - sint start" "sint stop - sint start < 2 ^ 63"
    and cnt: "(sint stop - sint start) div sint step + 1 < 2 ^ 63"
    and lim: "(sint stop - sint start) div sint step + 1 \<le> int max_len"
  shows "\<exists>vs. Range_hist max_len start stop step = Inr (Some vs) \<and>
           int (length vs) = (sint stop - sint start) div sint step + 1 \<and>
           (\<forall>i<length vs. vs ! i = start + of_nat i * step \<and>
                          sint (vs ! i) = sint start + int i * sint step)"
proof -
  let ?d = "sint stop - sint start" and ?k = "sint step"
  let ?q = "?d div ?k"
  let ?n = "nat (?q + 1)"
  let ?vs = "Range_loop (replicate ?n 0) start step 0 ?n"
  have k0: "?k \<noteq> 0" using ne by (simp add: sint_eq_0)
  have sign: "(0 < ?k \<and> 0 \<le> ?d) \<or> (?k < 0 \<and> ?d \<le> 0)"
    using dir k0 by (auto simp: word_sless_alt)
  note q = same_sign_sdiv [OF sign]
  have "go_div (stop - start) step = word_of_int ?q"
    by (simp add: go_div_def sint_sub_in_range [OF fit] q(1))
  then have "go_div (stop - start) step + 1 = word_of_int (?q + 1)"
    by simp
  moreover have "sint (word_of_int (?q + 1) :: int64) = ?q + 1"
    using q(2) cnt by (intro sint_in_range) simp_all
  ultimately have len: "sint (go_div (stop - start) step + 1) = ?q + 1"
    by simp
  have mk: "make_int64 max_len (?q + 1) = Inr (replicate ?n 0)"
    using q(2) lim by (simp add: make_int64_def)
  have res: "Range_hist max_len start stop step = Inr (Some ?vs)"
    using ne dir by (simp add: Range_hist_def len mk Let_def)
  from Range_loop_result [of "replicate ?n 0" ?n 0 start step]
  have l: "length ?vs = ?n" and nth: "\<forall>i<?n. ?vs ! i = start + of_nat i * step"
    by simp_all
  have "sint (start + of_nat i * step) = sint start + int i * ?k" if "i < ?n" for i
  proof -
    from that q(2) have i: "int i \<le> ?q" by simp
    note m = step_multiples_between [OF sign i]
    have "- (2 ^ 63) \<le> sint start + int i * ?k \<and> sint start + int i * ?k < 2 ^ 63"
    proof (cases "0 < ?k")
      case True
      with m have "0 \<le> int i * ?k" "int i * ?k \<le> ?d" by blast+
      with sint_bounds [of start] sint_bounds [of stop] show ?thesis by linarith
    next
      case False
      with sign have "?k < 0" by auto
      with m have "?d \<le> int i * ?k" "int i * ?k \<le> 0" by blast+
      with sint_bounds [of start] sint_bounds [of stop] show ?thesis by linarith
    qed
    then have "sint (word_of_int (sint start + int i * ?k) :: int64) = sint start + int i * ?k"
      by (intro sint_in_range) simp_all
    moreover have "(word_of_int (sint start + int i * ?k) :: int64) = start + of_nat i * step"
      by simp
    ultimately show ?thesis by simp
  qed
  with l nth q(2) res show ?thesis
    by (intro exI [of _ ?vs]) simp
qed

text \<open>The two calls of the package's test, on a runtime that allocates four elements.\<close>

lemma Range_test_up: "4 \<le> max_len \<Longrightarrow> Range_hist max_len 1 10 3 = Inr (Some [1, 4, 7, 10])"
proof -
  assume m: "4 \<le> max_len"
  have len: "sint (go_div (10 - 1) (3 :: int64) + 1) = 4" by code_simp
  have loop: "Range_loop (replicate (nat 4) 0) 1 3 0 (nat 4) = [1, 4, 7, 10 :: int64]"
    by code_simp
  have mk: "make_int64 max_len 4 = Inr (replicate (nat 4) 0)"
    using m by (simp add: make_int64_def)
  show ?thesis
    unfolding Range_hist_def Let_def len mk sum.case loop
    by (simp add: word_sless_alt)
qed

lemma Range_test_down: "4 \<le> max_len \<Longrightarrow> Range_hist max_len 10 1 (- 3) = Inr (Some [10, 7, 4, 1])"
proof -
  assume m: "4 \<le> max_len"
  have len: "sint (go_div (1 - 10) (- 3 :: int64) + 1) = 4" by code_simp
  have loop: "Range_loop (replicate (nat 4) 0) 10 (- 3) 0 (nat 4) = [10, 7, 4, 1 :: int64]"
    by code_simp
  have mk: "make_int64 max_len 4 = Inr (replicate (nat 4) 0)"
    using m by (simp add: make_int64_def)
  show ?thesis
    unfolding Range_hist_def Let_def len mk sum.case loop
    by (simp add: word_sless_alt)
qed

text \<open>
  C5, as amended. \<^verbatim>\<open>Range(start, stop, step)\<close> returns \<^verbatim>\<open>nil\<close> when \<open>step = 0\<close>, when
  \<open>step > 0\<close> and \<open>start > stop\<close>, and when \<open>step < 0\<close> and \<open>start < stop\<close>. In every other
  case in which the difference \<open>stop - start\<close> and the number of elements
  \<open>(stop - start) / step + 1\<close> both fit in \<^verbatim>\<open>int64\<close>, and that number is not above
  \<open>max_len\<close>, the largest length that \<^verbatim>\<open>make\<close> allocates, it returns exactly that many
  elements (the quotient is the same truncated or floored), the first one is \<open>start\<close>,
  and each later one is its predecessor plus \<open>step\<close>, with no wrap-around. In
  particular, where \<^verbatim>\<open>make\<close> allocates four elements, \<^verbatim>\<open>Range(1, 10, 3)\<close> is
  \<open>[1, 4, 7, 10]\<close> and \<^verbatim>\<open>Range(10, 1, -3)\<close> is \<open>[10, 7, 4, 1]\<close>.
\<close>

theorem Range_contract:
  fixes start stop step :: int64
  shows "(step = 0 \<or> (0 <s step \<and> stop <s start) \<or> (step <s 0 \<and> start <s stop)
            \<longrightarrow> Range_hist max_len start stop step = Inr None) \<and>
         (\<not> (step = 0 \<or> (0 <s step \<and> stop <s start) \<or> (step <s 0 \<and> start <s stop)) \<and>
          - (2 ^ 63) \<le> sint stop - sint start \<and> sint stop - sint start < 2 ^ 63 \<and>
          (sint stop - sint start) div sint step + 1 < 2 ^ 63 \<and>
          (sint stop - sint start) div sint step + 1 \<le> int max_len
            \<longrightarrow> (\<exists>vs. Range_hist max_len start stop step = Inr (Some vs) \<and>
                   int (length vs) = (sint stop - sint start) div sint step + 1 \<and>
                   (sint stop - sint start) div sint step = (sint stop - sint start) sdiv sint step \<and>
                   vs ! 0 = start \<and>
                   (\<forall>i. i + 1 < length vs \<longrightarrow>
                      vs ! (i + 1) = vs ! i + step \<and>
                      sint (vs ! (i + 1)) = sint (vs ! i) + sint step))) \<and>
         (4 \<le> max_len \<longrightarrow>
            Range_hist max_len 1 10 3 = Inr (Some [1, 4, 7, 10]) \<and>
            Range_hist max_len 10 1 (- 3) = Inr (Some [10, 7, 4, 1]))"
proof (intro conjI impI)
  assume "step = 0 \<or> (0 <s step \<and> stop <s start) \<or> (step <s 0 \<and> start <s stop)"
  then show "Range_hist max_len start stop step = Inr None"
    by (auto simp: Range_hist_def)
next
  assume a: "\<not> (step = 0 \<or> (0 <s step \<and> stop <s start) \<or> (step <s 0 \<and> start <s stop)) \<and>
          - (2 ^ 63) \<le> sint stop - sint start \<and> sint stop - sint start < 2 ^ 63 \<and>
          (sint stop - sint start) div sint step + 1 < 2 ^ 63 \<and>
          (sint stop - sint start) div sint step + 1 \<le> int max_len"
  then have k0: "sint step \<noteq> 0" by (simp add: sint_eq_0)
  from a have sign: "(0 < sint step \<and> 0 \<le> sint stop - sint start) \<or>
                     (sint step < 0 \<and> sint stop - sint start \<le> 0)"
    using k0 by (auto simp: word_sless_alt)
  from a Range_hist_regular [where start = start and stop = stop and step = step
      and max_len = max_len] obtain vs where
    vs: "Range_hist max_len start stop step = Inr (Some vs)"
        "int (length vs) = (sint stop - sint start) div sint step + 1"
        "\<forall>i<length vs. vs ! i = start + of_nat i * step \<and>
                       sint (vs ! i) = sint start + int i * sint step"
    by blast
  have "0 < length vs" using vs(2) same_sign_sdiv(2) [OF sign] by linarith
  with vs(3) have first: "vs ! 0 = start" by force
  have next_one: "vs ! (i + 1) = vs ! i + step \<and> sint (vs ! (i + 1)) = sint (vs ! i) + sint step"
    if "i + 1 < length vs" for i
  proof -
    from that have i: "i < length vs" by simp
    from vs(3) that have
      "vs ! (i + 1) = start + of_nat (i + 1) * step"
      "sint (vs ! (i + 1)) = sint start + int (i + 1) * sint step"
      by blast+
    moreover from vs(3) i have
      "vs ! i = start + of_nat i * step"
      "sint (vs ! i) = sint start + int i * sint step"
      by blast+
    ultimately show ?thesis by (simp add: algebra_simps)
  qed
  note eq = same_sign_sdiv(1) [OF sign, symmetric]
  from vs(1,2) eq first next_one
  show "\<exists>vs. Range_hist max_len start stop step = Inr (Some vs) \<and>
                   int (length vs) = (sint stop - sint start) div sint step + 1 \<and>
                   (sint stop - sint start) div sint step = (sint stop - sint start) sdiv sint step \<and>
                   vs ! 0 = start \<and>
                   (\<forall>i. i + 1 < length vs \<longrightarrow>
                      vs ! (i + 1) = vs ! i + step \<and>
                      sint (vs ! (i + 1)) = sint (vs ! i) + sint step)"
    by blast
next
  assume "4 \<le> max_len"
  then show "Range_hist max_len 1 10 3 = Inr (Some [1, 4, 7, 10])" by (rule Range_test_up)
next
  assume "4 \<le> max_len"
  then show "Range_hist max_len 10 1 (- 3) = Inr (Some [10, 7, 4, 1])" by (rule Range_test_down)
qed

theorem Range_contract_witness:
  "Range_hist (2 ^ 45) 10 1 3 = Inr None \<and>
   Range_hist (2 ^ 45) 1 10 (- 3) = Inr None \<and>
   Range_hist (2 ^ 45) 1 10 0 = Inr None \<and>
   (\<exists>vs. Range_hist (2 ^ 45) 1 10 4 = Inr (Some vs) \<and>
         int (length vs) = (sint (10 :: int64) - sint (1 :: int64)) div sint (4 :: int64) + 1 \<and>
         (sint (10 :: int64) - sint (1 :: int64)) div sint (4 :: int64) =
           (sint (10 :: int64) - sint (1 :: int64)) sdiv sint (4 :: int64) \<and>
         vs ! 0 = 1 \<and>
         (\<forall>i. i + 1 < length vs \<longrightarrow>
            vs ! (i + 1) = vs ! i + 4 \<and> sint (vs ! (i + 1)) = sint (vs ! i) + sint (4 :: int64))) \<and>
   Range_hist (2 ^ 45) 1 10 3 = Inr (Some [1, 4, 7, 10]) \<and>
   Range_hist (2 ^ 45) 10 1 (- 3) = Inr (Some [10, 7, 4, 1])"
proof -
  have "Range_hist (2 ^ 45) 10 1 3 = Inr None"
    using Range_contract [where start = 10 and stop = 1 and step = 3 and max_len = "2 ^ 45"]
    by (simp add: word_sless_alt)
  moreover have "Range_hist (2 ^ 45) 1 10 (- 3) = Inr None"
    using Range_contract [where start = 1 and stop = 10 and step = "- 3" and max_len = "2 ^ 45"]
    by (simp add: word_sless_alt)
  moreover have "Range_hist (2 ^ 45) 1 10 0 = Inr None"
    using Range_contract [where start = 1 and stop = 10 and step = 0 and max_len = "2 ^ 45"]
    by simp
  moreover have "\<not> ((4 :: int64) = 0 \<or> (0 <s (4 :: int64) \<and> (10 :: int64) <s 1) \<or>
                     ((4 :: int64) <s 0 \<and> (1 :: int64) <s 10)) \<and>
          - (2 ^ 63) \<le> sint (10 :: int64) - sint (1 :: int64) \<and>
          sint (10 :: int64) - sint (1 :: int64) < 2 ^ 63 \<and>
          (sint (10 :: int64) - sint (1 :: int64)) div sint (4 :: int64) + 1 < 2 ^ 63 \<and>
          (sint (10 :: int64) - sint (1 :: int64)) div sint (4 :: int64) + 1 \<le> int (2 ^ 45)"
    by (simp add: word_sless_alt)
  then have "\<exists>vs. Range_hist (2 ^ 45) 1 10 4 = Inr (Some vs) \<and>
         int (length vs) = (sint (10 :: int64) - sint (1 :: int64)) div sint (4 :: int64) + 1 \<and>
         (sint (10 :: int64) - sint (1 :: int64)) div sint (4 :: int64) =
           (sint (10 :: int64) - sint (1 :: int64)) sdiv sint (4 :: int64) \<and>
         vs ! 0 = 1 \<and>
         (\<forall>i. i + 1 < length vs \<longrightarrow>
            vs ! (i + 1) = vs ! i + 4 \<and> sint (vs ! (i + 1)) = sint (vs ! i) + sint (4 :: int64))"
    by (rule Range_contract [where start = 1 and stop = 10 and step = 4 and max_len = "2 ^ 45",
          THEN conjunct2, THEN conjunct1, rule_format])
  moreover have four: "4 \<le> (2 ^ 45 :: nat)" by simp
  note tests = Range_contract [where start = 0 and stop = 0 and step = 0 and max_len = "2 ^ 45",
      THEN conjunct2, THEN conjunct2, rule_format, OF four]
  moreover have "Range_hist (2 ^ 45) 1 10 3 = Inr (Some [1, 4, 7, 10])"
    by (rule tests [THEN conjunct1])
  moreover have "Range_hist (2 ^ 45) 10 1 (- 3) = Inr (Some [10, 7, 4, 1])"
    by (rule tests [THEN conjunct2])
  ultimately show ?thesis by (intro conjI)
qed

text \<open>
  C5 as stated fails in two ways, shown on 64-bit Linux, where \<^verbatim>\<open>make\<close> allocates up to
  \<open>2^45\<close> elements. When \<open>stop - start\<close> does not fit in \<^verbatim>\<open>int64\<close>:
  \<^verbatim>\<open>Range(MinInt64, MaxInt64, 1 << 62)\<close> is none of the three empty cases, and
  \<open>(stop - start) / step + 1\<close> is 4 (the elements would be \<open>-2^63, -2^62, 0, 2^62\<close>), but
  the subtraction wraps around to \<open>-1\<close> and the slice returned has the one element
  \<^verbatim>\<open>MinInt64\<close>. When the number of elements is more than \<^verbatim>\<open>make\<close> allocates:
  \<^verbatim>\<open>Range(0, 1 << 50, 1)\<close> is none of the three empty cases and nothing in it overflows,
  \<open>(stop - start) / step + 1\<close> is \<open>2^50 + 1\<close>, and \<^verbatim>\<open>make\<close> panics, so nothing is returned.
\<close>

theorem Range_overflow:
  "\<not> ((2 ^ 62 :: int64) = 0 \<or> (0 <s (2 ^ 62 :: int64) \<and> MaxInt64 <s MinInt64) \<or>
       ((2 ^ 62 :: int64) <s 0 \<and> MinInt64 <s MaxInt64)) \<and>
   Range_hist (2 ^ 45) MinInt64 MaxInt64 (2 ^ 62) = Inr (Some [MinInt64]) \<and>
   (sint MaxInt64 - sint MinInt64) div sint (2 ^ 62 :: int64) + 1 = 4 \<and>
   int (length [MinInt64]) \<noteq> (sint MaxInt64 - sint MinInt64) div sint (2 ^ 62 :: int64) + 1 \<and>
   \<not> ((1 :: int64) = 0 \<or> (0 <s (1 :: int64) \<and> (2 ^ 50 :: int64) <s 0) \<or>
       ((1 :: int64) <s 0 \<and> (0 :: int64) <s 2 ^ 50)) \<and>
   (sint (2 ^ 50 :: int64) - sint (0 :: int64)) div sint (1 :: int64) + 1 = 2 ^ 50 + 1 \<and>
   Range_hist (2 ^ 45) 0 (2 ^ 50) 1 = Inl makeslice_len"
proof -
  have none: "\<not> ((2 ^ 62 :: int64) = 0 \<or> (0 <s (2 ^ 62 :: int64) \<and> MaxInt64 <s MinInt64) \<or>
       ((2 ^ 62 :: int64) <s 0 \<and> MinInt64 <s MaxInt64))"
    by code_simp
  have four: "(sint MaxInt64 - sint MinInt64) div sint (2 ^ 62 :: int64) + 1 = 4"
    by code_simp
  have wlen: "sint (go_div (MaxInt64 - MinInt64) (2 ^ 62 :: int64) + 1) = 1"
    by code_simp
  have wloop: "Range_loop (replicate (nat 1) 0) MinInt64 (2 ^ 62) 0 (nat 1) = [MinInt64]"
    by code_simp
  have wmk: "make_int64 (2 ^ 45) 1 = Inr (replicate (nat 1) 0)"
    by (simp add: make_int64_def)
  have one: "Range_hist (2 ^ 45) MinInt64 MaxInt64 (2 ^ 62) = Inr (Some [MinInt64])"
    using none unfolding Range_hist_def Let_def wlen wmk sum.case wloop
    by simp
  have wrap: "\<not> ((2 ^ 62 :: int64) = 0 \<or> (0 <s (2 ^ 62 :: int64) \<and> MaxInt64 <s MinInt64) \<or>
       ((2 ^ 62 :: int64) <s 0 \<and> MinInt64 <s MaxInt64)) \<and>
   Range_hist (2 ^ 45) MinInt64 MaxInt64 (2 ^ 62) = Inr (Some [MinInt64]) \<and>
   (sint MaxInt64 - sint MinInt64) div sint (2 ^ 62 :: int64) + 1 = 4 \<and>
   int (length [MinInt64]) \<noteq> (sint MaxInt64 - sint MinInt64) div sint (2 ^ 62 :: int64) + 1"
    using none one four by simp
  have cases: "\<not> ((1 :: int64) = 0 \<or> (0 <s (1 :: int64) \<and> (2 ^ 50 :: int64) <s 0) \<or>
       ((1 :: int64) <s 0 \<and> (0 :: int64) <s 2 ^ 50))"
    by code_simp
  have count: "(sint (2 ^ 50 :: int64) - sint (0 :: int64)) div sint (1 :: int64) + 1 = 2 ^ 50 + 1"
    by code_simp
  have len: "sint (go_div (2 ^ 50 - 0) (1 :: int64) + 1) = 2 ^ 50 + 1"
    by code_simp
  have "Range_hist (2 ^ 45) 0 (2 ^ 50) 1 = Inl makeslice_len"
    unfolding Range_hist_def Let_def len
    by (simp add: make_int64_def word_sless_alt)
  with wrap cases count show ?thesis by (intro conjI) blast+
qed

end
